theory Spec2Isabelle
  imports Main
begin

section \<open>The host reference computation of the interaction layer\<close>

text \<open>
  The development follows \<^verbatim>\<open>interaction_layer_test\<close> of
  \<^verbatim>\<open>test/utest/legacy_layer_test/interaction_layer_test_old.cpp\<close>: the host side of the
  test recomputes the forward and the backward pass of the layer on flat row-major arrays.
  Every \<^verbatim>\<open>std::vector<T>\<close> is a list, every \<^verbatim>\<open>for\<close> loop over \<^verbatim>\<open>0 .. n-1\<close> is a
  \<open>fold\<close> over \<open>[0..<n]\<close> that threads the arrays (and the running \<^verbatim>\<open>cur_idx\<close>) the
  loop body mutates. Sizes and indices are \<^verbatim>\<open>size_t\<close>; they are natural numbers here,
  which is exact as long as the arrays can be allocated at all (no product of the shape
  parameters reaches \<open>2 ^ 64\<close>).

  The storage element type \<^verbatim>\<open>T\<close> (\<^verbatim>\<open>float\<close> or \<^verbatim>\<open>__half\<close>) is the type variable \<open>'a\<close>
  and the accumulator type \<^verbatim>\<open>float\<close> is \<open>'f\<close>. Their arithmetic is that of the classes
  \<open>zero\<close>, \<open>one\<close>, \<open>plus\<close>, \<open>times\<close>, which carry no laws: rounding is left abstract, and a
  theorem that needs an algebraic law says so. The initial value of the buffers,
  \<^verbatim>\<open>TypeConvert<T, float>::convert(0.0f)\<close> and \<^verbatim>\<open>0.0\<close>, is the zero of \<open>'a\<close>.

  The input vectors, which the test fills with random numbers, are parameters. The device
  side of the test (the layer itself, the copies from the device and the comparisons with
  the host arrays, and the array \<^verbatim>\<open>h_mat_tmp\<close> that exists only for one of those comparisons)
  is not part of the host computation and is left out.
\<close>

subsection \<open>Storage and accumulation precision\<close>

text \<open>
  \<open>to_float\<close> is \<^verbatim>\<open>float(x)\<close> (\<^verbatim>\<open>__half2float\<close> for half storage), \<open>of_float\<close> the
  conversion that happens when a \<^verbatim>\<open>float\<close> is stored into a \<^verbatim>\<open>T\<close>, and \<open>is_half\<close>
  selects the \<^verbatim>\<open>__half\<close> specialisations of \<^verbatim>\<open>get_accum\<close> and \<^verbatim>\<open>get_sec_accum\<close>.
\<close>

record ('a, 'f) precision =
  to_float :: "'a \<Rightarrow> 'f"
  of_float :: "'f \<Rightarrow> 'a"
  is_half :: bool

definition get_accum :: "('a::times, 'f::times) precision \<Rightarrow> 'a \<Rightarrow> 'a \<Rightarrow> 'f" where
  "get_accum pr a b =
     (if is_half pr then to_float pr a * to_float pr b else to_float pr (a * b))"

definition get_sec_accum ::
  "('a::{plus,times}, 'f::{plus,times}) precision \<Rightarrow> 'a \<Rightarrow> 'a \<Rightarrow> 'a \<Rightarrow> 'f" where
  "get_sec_accum pr a b c =
     (if is_half pr then (to_float pr a + to_float pr b) * to_float pr c
      else to_float pr ((a + b) * c))"

subsection \<open>Shapes\<close>

definition n_ins :: "nat \<Rightarrow> nat" where
  "n_ins n_emb = 1 + n_emb"

definition out_width :: "nat \<Rightarrow> nat \<Rightarrow> nat" where
  "out_width n_emb in_width = n_ins n_emb * in_width"

definition out_len :: "nat \<Rightarrow> nat \<Rightarrow> nat" where
  "out_len n_emb in_width =
     in_width + (n_ins n_emb * (n_ins n_emb + 1) div 2 - n_ins n_emb) + 1"

subsection \<open>Concatenation and its backward scatter\<close>

text \<open>
  The lambda \<^verbatim>\<open>concat_op\<close> captures \<^verbatim>\<open>h_in_mlp\<close>, \<^verbatim>\<open>h_in_emb\<close> and \<^verbatim>\<open>h_concat\<close> by
  reference; the state of the model is that triple.
\<close>

definition concat_body ::
  "nat \<Rightarrow> nat \<Rightarrow> bool \<Rightarrow> nat \<Rightarrow> nat \<Rightarrow> nat \<Rightarrow>
   'a::plus list \<times> 'a list \<times> 'a list \<Rightarrow> 'a list \<times> 'a list \<times> 'a list" where
  "concat_body n_emb in_width fprop ni h w =
     (\<lambda>(h_in_mlp, h_in_emb, h_concat).
        let in_idx_base = (if ni = 0 then h * in_width else h * in_width * n_emb);
            in_idx = in_idx_base + w;
            out_idx = h * out_width n_emb in_width + ni * in_width + w
        in if fprop then
             (h_in_mlp, h_in_emb,
              h_concat[out_idx :=
                 (if ni = 0 then h_in_mlp ! in_idx
                  else h_in_emb ! ((ni - 1) * in_width + in_idx))])
           else if ni = 0 then
             (h_in_mlp[in_idx := h_in_mlp ! in_idx + h_concat ! out_idx], h_in_emb, h_concat)
           else
             (h_in_mlp, h_in_emb[in_idx + (ni - 1) * in_width := h_concat ! out_idx],
              h_concat))"

definition concat_op ::
  "nat \<Rightarrow> nat \<Rightarrow> nat \<Rightarrow> bool \<Rightarrow>
   'a::plus list \<times> 'a list \<times> 'a list \<Rightarrow> 'a list \<times> 'a list \<times> 'a list" where
  "concat_op height n_emb in_width fprop =
     fold (\<lambda>ni. fold (\<lambda>h. fold (\<lambda>w. concat_body n_emb in_width fprop ni h w)
                                  [0..<in_width])
                      [0..<height])
          [0..<n_ins n_emb]"

subsection \<open>The Gram matrix\<close>

definition dot_accum ::
  "('a::times, 'f::{zero,plus,times}) precision \<Rightarrow> nat \<Rightarrow> 'a list \<Rightarrow> nat \<Rightarrow> nat \<Rightarrow> 'f" where
  "dot_accum pr in_width h_concat row_m row_n =
     fold (\<lambda>k accum. accum + get_accum pr (h_concat ! (row_m + k)) (h_concat ! (row_n + k)))
          [0..<in_width] 0"

definition matmul ::
  "nat \<Rightarrow> nat \<Rightarrow> nat \<Rightarrow> ('a::times, 'f::{zero,plus,times}) precision \<Rightarrow>
   'a list \<Rightarrow> 'a list \<Rightarrow> 'a list" where
  "matmul height n_emb in_width pr h_concat =
     fold (\<lambda>p.
       let concat_stride = n_ins n_emb * in_width * p;
           mat_stride = n_ins n_emb * n_ins n_emb * p
       in fold (\<lambda>m. fold (\<lambda>n h_mat.
                 h_mat[mat_stride + m * n_ins n_emb + n :=
                   of_float pr (dot_accum pr in_width h_concat
                     (concat_stride + m * in_width) (concat_stride + n * in_width))])
               [0..<n_ins n_emb])
            [0..<n_ins n_emb])
       [0..<height]"

subsection \<open>Output assembly\<close>

definition assemble_row ::
  "nat \<Rightarrow> nat \<Rightarrow> 'a list \<Rightarrow> 'a list \<Rightarrow> nat \<Rightarrow> 'a list \<Rightarrow> 'a list" where
  "assemble_row n_emb in_width h_in_mlp h_mat p h_ref =
     (let out_stride = p * out_len n_emb in_width;
          mat_stride = p * n_ins n_emb * n_ins n_emb;
          s1 = fold (\<lambda>i (cur_idx, h_ref).
                  (cur_idx + 1, h_ref[out_stride + cur_idx := h_in_mlp ! (p * in_width + i)]))
                [0..<in_width] (0, h_ref);
          s2 = fold (\<lambda>n. fold (\<lambda>m (cur_idx, h_ref).
                  if n > m
                  then (cur_idx + 1,
                        h_ref[out_stride + cur_idx := h_mat ! (mat_stride + m * n_ins n_emb + n)])
                  else (cur_idx, h_ref))
                [0..<n_ins n_emb])
                [0..<n_ins n_emb] s1
      in snd s2)"

definition assemble :: "nat \<Rightarrow> nat \<Rightarrow> nat \<Rightarrow> 'a::zero list \<Rightarrow> 'a list \<Rightarrow> 'a list" where
  "assemble height n_emb in_width h_in_mlp h_mat =
     fold (assemble_row n_emb in_width h_in_mlp h_mat) [0..<height]
          (replicate (height * out_len n_emb in_width) 0)"

subsection \<open>Backward disassembly\<close>

definition disassemble_row ::
  "nat \<Rightarrow> nat \<Rightarrow> 'a::zero list \<Rightarrow> nat \<Rightarrow> 'a list \<times> 'a list \<Rightarrow> 'a list \<times> 'a list" where
  "disassemble_row n_emb in_width h_ref p =
     (\<lambda>(h_in_mlp, h_mat).
        let out_stride = p * out_len n_emb in_width;
            mat_stride = p * n_ins n_emb * n_ins n_emb;
            s1 = fold (\<lambda>i (cur_idx, h_in_mlp).
                    (cur_idx + 1, h_in_mlp[p * in_width + i := h_ref ! (out_stride + cur_idx)]))
                  [0..<in_width] (0, h_in_mlp);
            s2 = fold (\<lambda>n. fold (\<lambda>m (cur_idx, h_mat).
                    if n > m
                    then (cur_idx + 1,
                          h_mat[mat_stride + m * n_ins n_emb + n := h_ref ! (out_stride + cur_idx)])
                    else (cur_idx, h_mat[mat_stride + m * n_ins n_emb + n := 0]))
                  [0..<n_ins n_emb])
                  [0..<n_ins n_emb] (fst s1, h_mat)
        in (snd s1, snd s2))"

definition disassemble ::
  "nat \<Rightarrow> nat \<Rightarrow> nat \<Rightarrow> 'a::zero list \<Rightarrow> 'a list \<times> 'a list \<Rightarrow> 'a list \<times> 'a list" where
  "disassemble height n_emb in_width h_ref =
     fold (disassemble_row n_emb in_width h_ref) [0..<height]"

subsection \<open>Gradient recombination\<close>

definition sec_accum ::
  "('a::{plus,times}, 'f::{zero,plus,times}) precision \<Rightarrow> nat \<Rightarrow> nat \<Rightarrow> 'a list \<Rightarrow> 'a list \<Rightarrow>
   nat \<Rightarrow> nat \<Rightarrow> nat \<Rightarrow> nat \<Rightarrow> 'f" where
  "sec_accum pr n_emb in_width h_mat h_concat_tmp mat_stride concat_stride m n =
     fold (\<lambda>k accum. accum +
             get_sec_accum pr (h_mat ! (mat_stride + m * n_ins n_emb + k))
                              (h_mat ! (mat_stride + k * n_ins n_emb + m))
                              (h_concat_tmp ! (concat_stride + k * in_width + n)))
          [0..<n_ins n_emb] 0"

definition recombine ::
  "nat \<Rightarrow> nat \<Rightarrow> nat \<Rightarrow> ('a::{plus,times}, 'f::{zero,one,plus,times}) precision \<Rightarrow>
   'a list \<Rightarrow> 'a list \<Rightarrow> 'a list" where
  "recombine height n_emb in_width pr h_mat h_concat =
     (let h_concat_tmp = h_concat
      in fold (\<lambda>p.
           let mat_stride = n_ins n_emb * n_ins n_emb * p;
               concat_stride = n_ins n_emb * in_width * p
           in fold (\<lambda>m. fold (\<lambda>n h_concat.
                     h_concat[concat_stride + m * in_width + n :=
                       of_float pr (1 * sec_accum pr n_emb in_width h_mat h_concat_tmp
                                          mat_stride concat_stride m n)])
                   [0..<in_width])
                [0..<n_ins n_emb])
           [0..<height] h_concat)"

subsection \<open>The two passes of the host reference\<close>

record 'a host =
  h_in_mlp :: "'a list"
  h_in_emb :: "'a list"
  h_concat :: "'a list"
  h_mat :: "'a list"
  h_ref :: "'a list"

definition host_fprop ::
  "nat \<Rightarrow> nat \<Rightarrow> nat \<Rightarrow> ('a::{zero,plus,times}, 'f::{zero,plus,times}) precision \<Rightarrow>
   'a list \<Rightarrow> 'a list \<Rightarrow> 'a host" where
  "host_fprop height n_emb in_width pr mlp emb =
     (let (mlp1, emb1, cat) =
            concat_op height n_emb in_width True
              (mlp, emb, replicate (height * out_width n_emb in_width) 0);
          mat = matmul height n_emb in_width pr cat
                  (replicate (height * n_ins n_emb * n_ins n_emb) 0);
          ref = assemble height n_emb in_width mlp1 mat
      in \<lparr>h_in_mlp = mlp1, h_in_emb = emb1, h_concat = cat, h_mat = mat, h_ref = ref\<rparr>)"

text \<open>
  The host test reads the upstream gradient from \<^verbatim>\<open>h_ref\<close>, the array the forward pass
  filled; the backward pass below takes whatever that field holds.
\<close>

definition host_bprop ::
  "nat \<Rightarrow> nat \<Rightarrow> nat \<Rightarrow> ('a::{zero,plus,times}, 'f::{zero,one,plus,times}) precision \<Rightarrow>
   'a host \<Rightarrow> 'a host" where
  "host_bprop height n_emb in_width pr s =
     (let (mlp1, mat1) = disassemble height n_emb in_width (h_ref s) (h_in_mlp s, h_mat s);
          cat1 = recombine height n_emb in_width pr mat1 (h_concat s);
          (mlp2, emb2, cat2) =
            concat_op height n_emb in_width False (mlp1, h_in_emb s, cat1)
      in \<lparr>h_in_mlp = mlp2, h_in_emb = emb2, h_concat = cat2, h_mat = mat1, h_ref = h_ref s\<rparr>)"

section \<open>Auxiliary notions for the proofs\<close>

text \<open>
  The flat index of cell \<open>(p, m, n)\<close> of a row-major array of shape \<open>[_, M, N]\<close>.
\<close>

definition ix3 :: "nat \<Rightarrow> nat \<Rightarrow> nat \<Rightarrow> nat \<Rightarrow> nat \<Rightarrow> nat" where
  "ix3 M N p m n = (p * M + m) * N + n"

text \<open>
  A nest of three loops that stores \<open>v p m n\<close> into cell \<open>g p m n\<close>.
\<close>

definition write3 ::
  "(nat \<Rightarrow> nat \<Rightarrow> nat \<Rightarrow> nat) \<Rightarrow> (nat \<Rightarrow> nat \<Rightarrow> nat \<Rightarrow> 'a) \<Rightarrow> nat \<Rightarrow> nat \<Rightarrow> nat \<Rightarrow> 'a list \<Rightarrow> 'a list" where
  "write3 g v H M N =
     fold (\<lambda>p. fold (\<lambda>m. fold (\<lambda>n xs. xs[g p m n := v p m n]) [0..<N]) [0..<M]) [0..<H]"

text \<open>
  Entry \<open>w\<close> of row \<open>ni\<close> of the concatenated matrix of sample \<open>h\<close>: the dense vector for
  \<open>ni = 0\<close>, the embedding vector \<open>ni - 1\<close> otherwise.
\<close>

definition concat_row :: "nat \<Rightarrow> nat \<Rightarrow> 'a list \<Rightarrow> 'a list \<Rightarrow> nat \<Rightarrow> nat \<Rightarrow> nat \<Rightarrow> 'a" where
  "concat_row n_emb in_width mlp emb h ni w =
     (if ni = 0 then mlp ! (h * in_width + w)
      else emb ! (ix3 n_emb in_width h (ni - 1) w))"

text \<open>
  Exact arithmetic: storage and accumulator type coincide and the conversions are the
  identity; \<open>exact\<close> takes the generic and \<open>exact_half\<close> the \<^verbatim>\<open>__half\<close> branch of the
  accumulation helpers.
\<close>

definition exact :: "('a, 'a) precision" where
  "exact = \<lparr>to_float = id, of_float = id, is_half = False\<rparr>"

definition exact_half :: "('a, 'a) precision" where
  "exact_half = \<lparr>to_float = id, of_float = id, is_half = True\<rparr>"

text \<open>
  A nest of two loops that replaces cell \<open>g h w\<close> by \<open>f h w\<close> of its content.
\<close>

definition modify2 ::
  "(nat \<Rightarrow> nat \<Rightarrow> nat) \<Rightarrow> (nat \<Rightarrow> nat \<Rightarrow> 'a \<Rightarrow> 'a) \<Rightarrow> nat \<Rightarrow> nat \<Rightarrow> 'a list \<Rightarrow> 'a list" where
  "modify2 g f H W =
     fold (\<lambda>h. fold (\<lambda>w xs. xs[g h w := f h w (xs ! g h w)]) [0..<W]) [0..<H]"

text \<open>
  The pairs \<open>(n, m)\<close> with \<open>m < n < N\<close> in the order in which the assembly loop meets
  them.
\<close>

definition upper_pairs :: "nat \<Rightarrow> (nat \<times> nat) list" where
  "upper_pairs N = concat (map (\<lambda>n. map (Pair n) [0..<n]) [0..<N])"

text \<open>
  The dense values of sample \<open>p\<close>, and the strict upper triangle of its Gram matrix in
  the order of \<open>upper_pairs\<close>.
\<close>

definition dense_row :: "'a list \<Rightarrow> nat \<Rightarrow> nat \<Rightarrow> 'a list" where
  "dense_row mlp in_width p = map (\<lambda>i. mlp ! (p * in_width + i)) [0..<in_width]"

definition triangle :: "'a list \<Rightarrow> nat \<Rightarrow> nat \<Rightarrow> 'a list" where
  "triangle mat N p = map (\<lambda>(n, m). mat ! (p * N * N + m * N + n)) (upper_pairs N)"

text \<open>
  The variant of claim C10: the Gram loop of \<open>matmul\<close> with the store guarded by \<open>n > m\<close>,
  run on an array \<open>junk\<close> of arbitrary content, and the forward pass built on it.
\<close>

definition matmul_upper ::
  "nat \<Rightarrow> nat \<Rightarrow> nat \<Rightarrow> ('a::times, 'f::{zero,plus,times}) precision \<Rightarrow>
   'a list \<Rightarrow> 'a list \<Rightarrow> 'a list" where
  "matmul_upper height n_emb in_width pr cat =
     fold (\<lambda>p.
       let concat_stride = n_ins n_emb * in_width * p;
           mat_stride = n_ins n_emb * n_ins n_emb * p
       in fold (\<lambda>m. fold (\<lambda>n h_mat.
                 if n > m then
                   h_mat[mat_stride + m * n_ins n_emb + n :=
                     of_float pr (dot_accum pr in_width cat
                       (concat_stride + m * in_width) (concat_stride + n * in_width))]
                 else h_mat)
               [0..<n_ins n_emb])
            [0..<n_ins n_emb])
       [0..<height]"

definition host_fprop_upper ::
  "nat \<Rightarrow> nat \<Rightarrow> nat \<Rightarrow> ('a::{zero,plus,times}, 'f::{zero,plus,times}) precision \<Rightarrow>
   'a list \<Rightarrow> 'a list \<Rightarrow> 'a list \<Rightarrow> 'a host" where
  "host_fprop_upper height n_emb in_width pr mlp emb junk =
     (let (mlp1, emb1, cat) =
            concat_op height n_emb in_width True
              (mlp, emb, replicate (height * out_width n_emb in_width) 0);
          mat = matmul_upper height n_emb in_width pr cat junk;
          ref = assemble height n_emb in_width mlp1 mat
      in \<lparr>h_in_mlp = mlp1, h_in_emb = emb1, h_concat = cat, h_mat = mat, h_ref = ref\<rparr>)"

text \<open>
  What the disassembly loop stores into cell \<open>(m, n)\<close> of the Gram gradient of sample
  \<open>p\<close>.
\<close>

definition grad_entry :: "nat \<Rightarrow> nat \<Rightarrow> 'a::zero list \<Rightarrow> nat \<Rightarrow> nat \<Rightarrow> nat \<Rightarrow> 'a" where
  "grad_entry n_emb in_width g p n m =
     (if m < n then g ! (p * out_len n_emb in_width + (in_width + length (upper_pairs n) + m))
      else 0)"

text \<open>
  Modelled from the spec: the shape check of the operator. The layer class that the test
  constructs (\<^verbatim>\<open>layers/interaction_layer.hpp\<close> and its implementation) is not among the
  sources, and the host reference performs no check. Following the specification, the
  operator is constructed with a configured shape, each input carries its dimensions, and
  the forward call compares them before it computes anything: any disagreement between the
  two inputs, or between an input and the configured shape, is the error \<open>ShapeMismatch\<close>
  and there is no output; otherwise the output is the one of the forward pass.
\<close>

datatype op_error = ShapeMismatch | InvalidSequence

record op_shape =
  cfg_height :: nat
  cfg_n_emb :: nat
  cfg_in_width :: nat

record 'a dense_input =
  dense_height :: nat
  dense_width :: nat
  dense_data :: "'a list"

record 'a emb_input =
  emb_height :: nat
  emb_n_emb :: nat
  emb_width :: nat
  emb_data :: "'a list"

definition shapes_agree :: "op_shape \<Rightarrow> 'a dense_input \<Rightarrow> 'a emb_input \<Rightarrow> bool" where
  "shapes_agree cfg d e \<longleftrightarrow>
     dense_height d = emb_height e \<and> dense_width d = emb_width e \<and>
     dense_height d = cfg_height cfg \<and> dense_width d = cfg_in_width cfg \<and>
     emb_n_emb e = cfg_n_emb cfg"

definition operator_forward ::
  "op_shape \<Rightarrow> ('a::{zero,plus,times}, 'f::{zero,plus,times}) precision \<Rightarrow>
   'a dense_input \<Rightarrow> 'a emb_input \<Rightarrow> op_error + 'a list" where
  "operator_forward cfg pr d e =
     (if shapes_agree cfg d e
      then Inr (h_ref (host_fprop (cfg_height cfg) (cfg_n_emb cfg) (cfg_in_width cfg) pr
                         (dense_data d) (emb_data e)))
      else Inl ShapeMismatch)"

text \<open>
  A fragment of IEEE 754 arithmetic, on values: the integers, on which the operations are
  exact (as they are in \<^verbatim>\<open>float\<close> while the numbers stay small), the two infinities and NaN.
  NaN absorbs, infinities of opposite sign add up to NaN, and zero times an infinity is
  NaN.
\<close>

datatype ieee = Fin int | PInf | NInf | NaN

fun ieee_add :: "ieee \<Rightarrow> ieee \<Rightarrow> ieee" where
  "ieee_add NaN _ = NaN"
| "ieee_add _ NaN = NaN"
| "ieee_add (Fin a) (Fin b) = Fin (a + b)"
| "ieee_add PInf NInf = NaN"
| "ieee_add NInf PInf = NaN"
| "ieee_add PInf _ = PInf"
| "ieee_add _ PInf = PInf"
| "ieee_add NInf _ = NInf"
| "ieee_add _ NInf = NInf"

fun ieee_mul :: "ieee \<Rightarrow> ieee \<Rightarrow> ieee" where
  "ieee_mul NaN _ = NaN"
| "ieee_mul _ NaN = NaN"
| "ieee_mul (Fin a) (Fin b) = Fin (a * b)"
| "ieee_mul (Fin a) PInf = (if a = 0 then NaN else if 0 < a then PInf else NInf)"
| "ieee_mul (Fin a) NInf = (if a = 0 then NaN else if 0 < a then NInf else PInf)"
| "ieee_mul PInf (Fin a) = (if a = 0 then NaN else if 0 < a then PInf else NInf)"
| "ieee_mul NInf (Fin a) = (if a = 0 then NaN else if 0 < a then NInf else PInf)"
| "ieee_mul PInf PInf = PInf"
| "ieee_mul PInf NInf = NInf"
| "ieee_mul NInf PInf = NInf"
| "ieee_mul NInf NInf = PInf"

instantiation ieee :: "{zero,one,plus,times}"
begin
definition zero_ieee_def: "0 = Fin 0"
definition one_ieee_def: "1 = Fin 1"
definition plus_ieee_def: "a + b = ieee_add a b"
definition times_ieee_def: "a * b = ieee_mul a b"
instance ..
end

section \<open>Properties\<close>

subsection \<open>Index arithmetic of row-major arrays\<close>

lemma ix_less: "a < A \<Longrightarrow> b < B \<Longrightarrow> a * B + b < A * (B::nat)"
proof -
  assume a: "a < A" and b: "b < B"
  have "a * B + b < Suc a * B" using b by simp
  also have "\<dots> \<le> A * B" using a by (intro mult_le_mono1) simp
  finally show ?thesis .
qed

lemma ix_inj: "b < B \<Longrightarrow> b' < B \<Longrightarrow> a * B + b = a' * B + b' \<Longrightarrow> a = a' \<and> b = (b'::nat)"
proof -
  assume b: "b < B" and b': "b' < B" and e: "a * B + b = a' * B + b'"
  have "(a * B + b) div B = a" "(a' * B + b') div B = a'" using b b' by simp_all
  with e have "a = a'" by simp
  with e show ?thesis by simp
qed

lemma ix_split: "j < A * B \<Longrightarrow> \<exists>a b. a < A \<and> b < B \<and> j = a * B + (b::nat)"
proof -
  assume j: "j < A * B"
  then have B: "0 < B" by (cases B) simp_all
  have "j div B < A" using j B by (simp add: less_mult_imp_div_less)
  moreover have "j mod B < B" using B by simp
  moreover have "j = (j div B) * B + j mod B" by simp
  ultimately show ?thesis by blast
qed

lemma ix3_less: "p < H \<Longrightarrow> m < M \<Longrightarrow> n < N \<Longrightarrow> ix3 M N p m n < H * M * N"
proof -
  assume "p < H" "m < M" "n < N"
  from \<open>p < H\<close> \<open>m < M\<close> have "p * M + m < H * M" by (rule ix_less)
  from this \<open>n < N\<close> show ?thesis unfolding ix3_def by (rule ix_less)
qed

lemma ix3_inj:
  "m < M \<Longrightarrow> m' < M \<Longrightarrow> n < N \<Longrightarrow> n' < N \<Longrightarrow> ix3 M N p m n = ix3 M N p' m' n' \<Longrightarrow>
   p = p' \<and> m = m' \<and> n = n'"
proof -
  assume m: "m < M" "m' < M" and n: "n < N" "n' < N"
    and e: "ix3 M N p m n = ix3 M N p' m' n'"
  from n e have 1: "p * M + m = p' * M + m' \<and> n = n'"
    unfolding ix3_def by (rule ix_inj)
  from 1 have "p * M + m = p' * M + m'" by simp
  with m have "p = p' \<and> m = m'" by (intro ix_inj)
  with 1 show ?thesis by simp
qed

lemma ix3_split: "j < H * M * N \<Longrightarrow> \<exists>p m n. p < H \<and> m < M \<and> n < N \<and> j = ix3 M N p m n"
proof -
  assume "j < H * M * N"
  then obtain q n where q: "q < H * M" and n: "n < N" and j: "j = q * N + n"
    using ix_split [of j "H * M" N] by auto
  from q obtain p m where "p < H" "m < M" "q = p * M + m"
    using ix_split [of q H M] by auto
  with n j show ?thesis unfolding ix3_def by blast
qed

subsection \<open>Loops that write one array cell per iteration\<close>

lemma length_fold_write [simp]: "length (fold (\<lambda>k xs. xs[g k := v k]) ks xs) = length xs"
  by (induction ks arbitrary: xs) simp_all

lemma fold_write_other:
  "j \<notin> g ` set ks \<Longrightarrow> fold (\<lambda>k xs. xs[g k := v k]) ks xs ! j = xs ! j"
  by (induction ks arbitrary: xs) simp_all

lemma fold_write_nth:
  assumes "k \<in> set ks" "g k < length xs"
    and "\<And>k'. k' \<in> set ks \<Longrightarrow> g k' = g k \<Longrightarrow> v k' = v k"
  shows "fold (\<lambda>k xs. xs[g k := v k]) ks xs ! g k = v k"
  using assms
proof (induction ks rule: rev_induct)
  case Nil
  then show ?case by simp
next
  case (snoc x ks)
  show ?case
  proof (cases "g x = g k")
    case True
    have "x \<in> set (ks @ [x])" by simp
    then have "v x = v k" using True by (rule snoc.prems(3))
    with True snoc.prems(2) show ?thesis by simp
  next
    case False
    then have k: "k \<in> set ks" using snoc.prems(1) by auto
    have "fold (\<lambda>k xs. xs[g k := v k]) ks xs ! g k = v k"
    proof (rule snoc.IH [OF k snoc.prems(2)])
      fix k' assume "k' \<in> set ks" "g k' = g k"
      then show "v k' = v k" by (intro snoc.prems(3)) simp_all
    qed
    with False show ?thesis by simp
  qed
qed
lemma fold_fold_product:
  "fold (\<lambda>p. fold (f p) ms) ps s = fold (\<lambda>(p, m). f p m) (List.product ps ms) s"
  by (induction ps arbitrary: s) (simp_all add: fold_map comp_def)

lemma fold3_product:
  "fold (\<lambda>p. fold (\<lambda>m. fold (f p m) ns) ms) ps s =
   fold (\<lambda>(p, m, n). f p m n) (List.product ps (List.product ms ns)) s"
proof -
  have inner: "(\<lambda>p. fold (\<lambda>m. fold (f p m) ns) ms) =
               (\<lambda>p. fold (\<lambda>(m, n). f p m n) (List.product ms ns))"
    by (intro ext) (rule fold_fold_product)
  show ?thesis
    unfolding inner by (rule fold_fold_product [where f = "\<lambda>p (m, n). f p m n", simplified])
qed

lemma write3_flat:
  "write3 g v H M N xs =
     fold (\<lambda>k xs. xs[(case k of (p, m, n) \<Rightarrow> g p m n) := (case k of (p, m, n) \<Rightarrow> v p m n)])
       (List.product [0..<H] (List.product [0..<M] [0..<N])) xs"
proof -
  have "write3 g v H M N xs =
     fold (\<lambda>(p, m, n) xs. xs[g p m n := v p m n])
       (List.product [0..<H] (List.product [0..<M] [0..<N])) xs"
    unfolding write3_def by (rule fold3_product)
  also have "(\<lambda>(p, m, n) xs. xs[g p m n := v p m n]) =
     (\<lambda>k xs. xs[(case k of (p, m, n) \<Rightarrow> g p m n) := (case k of (p, m, n) \<Rightarrow> v p m n)])"
    by (auto simp: fun_eq_iff)
  finally show ?thesis .
qed

lemma length_write3 [simp]: "length (write3 g v H M N xs) = length xs"
  by (simp add: write3_flat)

lemma write3_other:
  assumes "\<And>p m n. p < H \<Longrightarrow> m < M \<Longrightarrow> n < N \<Longrightarrow> g p m n \<noteq> j"
  shows "write3 g v H M N xs ! j = xs ! j"
proof -
  have "j \<notin> (\<lambda>k. case k of (p, m, n) \<Rightarrow> g p m n) `
          set (List.product [0..<H] (List.product [0..<M] [0..<N]))"
  proof
    assume "j \<in> (\<lambda>k. case k of (p, m, n) \<Rightarrow> g p m n) `
          set (List.product [0..<H] (List.product [0..<M] [0..<N]))"
    then obtain p m n where "p < H" "m < M" "n < N" "j = g p m n" by auto
    with assms [of p m n] show False by simp
  qed
  then show ?thesis unfolding write3_flat by (rule fold_write_other)
qed

lemma write3_nth:
  assumes "p < H" "m < M" "n < N" "g p m n < length xs"
    and "\<And>p' m' n'. p' < H \<Longrightarrow> m' < M \<Longrightarrow> n' < N \<Longrightarrow> g p' m' n' = g p m n \<Longrightarrow>
           v p' m' n' = v p m n"
  shows "write3 g v H M N xs ! g p m n = v p m n"
proof -
  let ?G = "\<lambda>k. case k of (p, m, n) \<Rightarrow> g p m n"
  let ?V = "\<lambda>k. case k of (p, m, n) \<Rightarrow> v p m n"
  let ?ks = "List.product [0..<H] (List.product [0..<M] [0..<N])"
  have "fold (\<lambda>k xs. xs[?G k := ?V k]) ?ks xs ! ?G (p, m, n) = ?V (p, m, n)"
  proof (rule fold_write_nth)
    show "(p, m, n) \<in> set ?ks" using assms(1-3) by simp
    show "?G (p, m, n) < length xs" using assms(4) by simp
    fix k' assume k': "k' \<in> set ?ks" "?G k' = ?G (p, m, n)"
    obtain p' m' n' where [simp]: "k' = (p', m', n')" by (cases k') auto
    from k' have "p' < H" "m' < M" "n' < N" "g p' m' n' = g p m n" by simp_all
    then have "v p' m' n' = v p m n" by (rule assms(5))
    then show "?V k' = ?V (p, m, n)" by simp
  qed
  then show ?thesis by (simp add: write3_flat)
qed

subsection \<open>The Gram loop nest\<close>

lemma matmul_write3:
  "matmul height n_emb in_width pr cat =
     write3 (\<lambda>p m n. ix3 (n_ins n_emb) (n_ins n_emb) p m n)
            (\<lambda>p m n. of_float pr (dot_accum pr in_width cat
                        (ix3 (n_ins n_emb) in_width p m 0) (ix3 (n_ins n_emb) in_width p n 0)))
            height (n_ins n_emb) (n_ins n_emb)"
  by (simp add: matmul_def write3_def ix3_def Let_def algebra_simps)

lemma matmul_nth:
  assumes "p < height" "m < n_ins n_emb" "n < n_ins n_emb"
    and "length mat = height * n_ins n_emb * n_ins n_emb"
  shows "matmul height n_emb in_width pr cat mat ! ix3 (n_ins n_emb) (n_ins n_emb) p m n =
         of_float pr (dot_accum pr in_width cat
            (ix3 (n_ins n_emb) in_width p m 0) (ix3 (n_ins n_emb) in_width p n 0))"
  unfolding matmul_write3
proof (rule write3_nth)
  show "ix3 (n_ins n_emb) (n_ins n_emb) p m n < length mat"
    using assms by (simp add: ix3_less)
  fix p' m' n'
  assume "p' < height" "m' < n_ins n_emb" "n' < n_ins n_emb"
    and "ix3 (n_ins n_emb) (n_ins n_emb) p' m' n' = ix3 (n_ins n_emb) (n_ins n_emb) p m n"
  then have "p' = p \<and> m' = m \<and> n' = n" using assms(2,3) by (intro ix3_inj)
  then show "of_float pr (dot_accum pr in_width cat
            (ix3 (n_ins n_emb) in_width p' m' 0) (ix3 (n_ins n_emb) in_width p' n' 0)) =
      of_float pr (dot_accum pr in_width cat
            (ix3 (n_ins n_emb) in_width p m 0) (ix3 (n_ins n_emb) in_width p n 0))" by simp
qed (use assms in simp_all)

lemma length_matmul [simp]: "length (matmul height n_emb in_width pr cat mat) = length mat"
  by (simp add: matmul_write3)

subsection \<open>The concatenation loop nest, forward\<close>

lemma fold_third:
  assumes "\<And>x c. F x (a, b, c) = (a, b, G x c)"
  shows "fold F xs (a, b, c) = (a, b, fold G xs c)"
  by (induction xs arbitrary: c) (simp_all add: assms)

lemma concat_op_fprop:
  "concat_op height n_emb in_width True (mlp, emb, cat) =
     (mlp, emb,
      write3 (\<lambda>ni h w. ix3 (n_ins n_emb) in_width h ni w)
             (\<lambda>ni h w. concat_row n_emb in_width mlp emb h ni w)
             (n_ins n_emb) height in_width cat)"
proof -
  let ?g = "\<lambda>ni h w. ix3 (n_ins n_emb) in_width h ni w"
  let ?v = "\<lambda>ni h w. concat_row n_emb in_width mlp emb h ni w"
  have 1: "concat_body n_emb in_width True ni h w (mlp, emb, c) =
             (mlp, emb, c[?g ni h w := ?v ni h w])" for ni h w c
    by (simp add: concat_body_def concat_row_def out_width_def ix3_def Let_def algebra_simps)
  have 2: "fold (\<lambda>w. concat_body n_emb in_width True ni h w) [0..<in_width] (mlp, emb, c) =
             (mlp, emb, fold (\<lambda>w c. c[?g ni h w := ?v ni h w]) [0..<in_width] c)" for ni h c
    by (rule fold_third) (rule 1)
  have 3: "fold (\<lambda>h. fold (\<lambda>w. concat_body n_emb in_width True ni h w) [0..<in_width])
             [0..<height] (mlp, emb, c) =
           (mlp, emb, fold (\<lambda>h. fold (\<lambda>w c. c[?g ni h w := ?v ni h w]) [0..<in_width])
             [0..<height] c)" for ni c
    by (rule fold_third) (rule 2)
  show ?thesis
    unfolding concat_op_def write3_def by (rule fold_third) (rule 3)
qed

lemma concat_fprop_nth:
  assumes "h < height" "ni < n_ins n_emb" "w < in_width"
    and "length cat = height * n_ins n_emb * in_width"
  shows "snd (snd (concat_op height n_emb in_width True (mlp, emb, cat))) !
           ix3 (n_ins n_emb) in_width h ni w = concat_row n_emb in_width mlp emb h ni w"
  unfolding concat_op_fprop snd_conv
proof (rule write3_nth)
  show "ix3 (n_ins n_emb) in_width h ni w < length cat"
    using assms by (simp add: ix3_less)
  fix ni' h' w'
  assume "ni' < n_ins n_emb" "h' < height" "w' < in_width"
    and "ix3 (n_ins n_emb) in_width h' ni' w' = ix3 (n_ins n_emb) in_width h ni w"
  then have "h' = h \<and> ni' = ni \<and> w' = w" using assms(2,3) by (intro ix3_inj)
  then show "concat_row n_emb in_width mlp emb h' ni' w' = concat_row n_emb in_width mlp emb h ni w"
    by simp
qed (use assms in simp_all)

lemma host_fprop_fields:
  "h_in_mlp (host_fprop height n_emb in_width pr mlp emb) = mlp"
  "h_in_emb (host_fprop height n_emb in_width pr mlp emb) = emb"
  "h_concat (host_fprop height n_emb in_width pr mlp emb) =
     snd (snd (concat_op height n_emb in_width True
       (mlp, emb, replicate (height * out_width n_emb in_width) 0)))"
  "h_mat (host_fprop height n_emb in_width pr mlp emb) =
     matmul height n_emb in_width pr (h_concat (host_fprop height n_emb in_width pr mlp emb))
       (replicate (height * n_ins n_emb * n_ins n_emb) 0)"
  "h_ref (host_fprop height n_emb in_width pr mlp emb) =
     assemble height n_emb in_width mlp (h_mat (host_fprop height n_emb in_width pr mlp emb))"
  by (simp_all add: host_fprop_def concat_op_fprop Let_def)

lemma concat_entry:
  assumes "b < height" "i < n_ins n_emb" "k < in_width"
  shows "h_concat (host_fprop height n_emb in_width pr mlp emb) ! ix3 (n_ins n_emb) in_width b i k
         = concat_row n_emb in_width mlp emb b i k"
  unfolding host_fprop_fields
  by (rule concat_fprop_nth) (use assms in \<open>simp_all add: out_width_def\<close>)

lemma gram_entry:
  assumes "b < height" "i < n_ins n_emb" "j < n_ins n_emb"
  shows "h_mat (host_fprop height n_emb in_width pr mlp emb) ! ix3 (n_ins n_emb) (n_ins n_emb) b i j
         = of_float pr (fold (\<lambda>k accum. accum +
              get_accum pr (h_concat (host_fprop height n_emb in_width pr mlp emb) !
                              ix3 (n_ins n_emb) in_width b i k)
                           (h_concat (host_fprop height n_emb in_width pr mlp emb) !
                              ix3 (n_ins n_emb) in_width b j k))
              [0..<in_width] 0)" (is "_ = ?rhs")
proof -
  have "h_mat (host_fprop height n_emb in_width pr mlp emb) ! ix3 (n_ins n_emb) (n_ins n_emb) b i j
      = of_float pr (dot_accum pr in_width (h_concat (host_fprop height n_emb in_width pr mlp emb))
            (ix3 (n_ins n_emb) in_width b i 0) (ix3 (n_ins n_emb) in_width b j 0))"
    unfolding host_fprop_fields(4) by (rule matmul_nth) (use assms in simp_all)
  also have "\<dots> = ?rhs"
    by (simp add: dot_accum_def ix3_def)
  finally show ?thesis .
qed

subsection \<open>The recombination loop nest\<close>

lemma recombine_write3:
  "recombine height n_emb in_width pr mat cat =
     write3 (\<lambda>p m n. ix3 (n_ins n_emb) in_width p m n)
            (\<lambda>p m n. of_float pr (1 * sec_accum pr n_emb in_width mat cat
                 (n_ins n_emb * n_ins n_emb * p) (n_ins n_emb * in_width * p) m n))
            height (n_ins n_emb) in_width cat"
  by (simp add: recombine_def write3_def ix3_def Let_def algebra_simps)

lemma length_recombine [simp]: "length (recombine height n_emb in_width pr mat cat) = length cat"
  by (simp add: recombine_write3)

lemma recombine_nth:
  assumes "p < height" "m < n_ins n_emb" "n < in_width"
    and "length cat = height * n_ins n_emb * in_width"
  shows "recombine height n_emb in_width pr mat cat ! ix3 (n_ins n_emb) in_width p m n =
         of_float pr (1 * sec_accum pr n_emb in_width mat cat
                 (n_ins n_emb * n_ins n_emb * p) (n_ins n_emb * in_width * p) m n)"
  unfolding recombine_write3
proof (rule write3_nth)
  show "ix3 (n_ins n_emb) in_width p m n < length cat"
    using assms by (simp add: ix3_less)
  fix p' m' n'
  assume "p' < height" "m' < n_ins n_emb" "n' < in_width"
    and "ix3 (n_ins n_emb) in_width p' m' n' = ix3 (n_ins n_emb) in_width p m n"
  then have "p' = p \<and> m' = m \<and> n' = n" using assms(2,3) by (intro ix3_inj)
  then show "of_float pr (1 * sec_accum pr n_emb in_width mat cat
                 (n_ins n_emb * n_ins n_emb * p') (n_ins n_emb * in_width * p') m' n') =
     of_float pr (1 * sec_accum pr n_emb in_width mat cat
                 (n_ins n_emb * n_ins n_emb * p) (n_ins n_emb * in_width * p) m n)" by simp
qed (use assms in simp_all)

subsection \<open>Loops that update one array cell per iteration in place\<close>

lemma length_fold_modify [simp]:
  "length (fold (\<lambda>k xs. xs[g k := F k (xs ! g k)]) ks xs) = length xs"
  by (induction ks arbitrary: xs) simp_all

lemma fold_modify_other:
  "j \<notin> g ` set ks \<Longrightarrow> fold (\<lambda>k xs. xs[g k := F k (xs ! g k)]) ks xs ! j = xs ! j"
  by (induction ks arbitrary: xs) simp_all

lemma fold_modify_nth:
  assumes "distinct ks" "inj_on g (set ks)" "k \<in> set ks" "g k < length xs"
  shows "fold (\<lambda>k xs. xs[g k := F k (xs ! g k)]) ks xs ! g k = F k (xs ! g k)"
  using assms
proof (induction ks arbitrary: xs)
  case Nil
  then show ?case by simp
next
  case (Cons x ks)
  let ?xs = "xs[g x := F x (xs ! g x)]"
  show ?case
  proof (cases "k = x")
    case True
    have "g x \<notin> g ` set ks"
    proof
      assume "g x \<in> g ` set ks"
      then obtain y where y: "y \<in> set ks" "g y = g x" by auto
      have "y = x"
        by (rule inj_onD [OF Cons.prems(2)]) (use y in simp_all)
      with y Cons.prems(1) show False by simp
    qed
    then have "fold (\<lambda>k xs. xs[g k := F k (xs ! g k)]) ks ?xs ! g x = ?xs ! g x"
      by (rule fold_modify_other)
    with True Cons.prems(4) show ?thesis by simp
  next
    case False
    with Cons.prems have k: "k \<in> set ks" and ne: "g x \<noteq> g k"
      by (auto dest: inj_onD)
    have "fold (\<lambda>k xs. xs[g k := F k (xs ! g k)]) ks ?xs ! g k = F k (?xs ! g k)"
      using Cons.prems k by (intro Cons.IH) (auto simp: inj_on_def)
    with ne show ?thesis by simp
  qed
qed

lemma modify2_flat:
  "modify2 g f H W xs =
     fold (\<lambda>k xs. xs[(case k of (h, w) \<Rightarrow> g h w) :=
                        (case k of (h, w) \<Rightarrow> f h w) (xs ! (case k of (h, w) \<Rightarrow> g h w))])
       (List.product [0..<H] [0..<W]) xs"
proof -
  have "modify2 g f H W xs =
     fold (\<lambda>(h, w) xs. xs[g h w := f h w (xs ! g h w)]) (List.product [0..<H] [0..<W]) xs"
    unfolding modify2_def by (rule fold_fold_product)
  also have "(\<lambda>(h, w) xs. xs[g h w := f h w (xs ! g h w)]) =
     (\<lambda>k xs. xs[(case k of (h, w) \<Rightarrow> g h w) :=
                        (case k of (h, w) \<Rightarrow> f h w) (xs ! (case k of (h, w) \<Rightarrow> g h w))])"
    by (auto simp: fun_eq_iff)
  finally show ?thesis .
qed

lemma length_modify2 [simp]: "length (modify2 g f H W xs) = length xs"
  by (simp add: modify2_flat)

lemma modify2_rows_nth:
  assumes "h < H" "w < W" "length xs = H * W"
  shows "modify2 (\<lambda>h w. h * W + w) f H W xs ! (h * W + w) = f h w (xs ! (h * W + w))"
proof -
  let ?G = "\<lambda>k. case k of (h, w) \<Rightarrow> h * W + w"
  let ?F = "\<lambda>k. case k of (h, w) \<Rightarrow> f h w"
  let ?ks = "List.product [0..<H] [0..<W]"
  have "fold (\<lambda>k xs. xs[?G k := ?F k (xs ! ?G k)]) ?ks xs ! ?G (h, w) = ?F (h, w) (xs ! ?G (h, w))"
  proof (rule fold_modify_nth)
    show "distinct ?ks" by (simp add: distinct_product)
    show "inj_on ?G (set ?ks)"
      by (rule inj_onI) (auto dest: ix_inj)
    show "(h, w) \<in> set ?ks" using assms by simp
    show "?G (h, w) < length xs" using assms by (simp add: ix_less)
  qed
  then show ?thesis by (simp add: modify2_flat)
qed

subsection \<open>The concatenation loop nest, backward\<close>

lemma fold_first:
  assumes "\<And>x a. F x (a, b, c) = (G x a, b, c)"
  shows "fold F xs (a, b, c) = (fold G xs a, b, c)"
  by (induction xs arbitrary: a) (simp_all add: assms)

lemma fold_second:
  assumes "\<And>x b. F x (a, b, c) = (a, G x b, c)"
  shows "fold F xs (a, b, c) = (a, fold G xs b, c)"
  by (induction xs arbitrary: b) (simp_all add: assms)

lemma upt_Suc_shift: "[0..<Suc n] = 0 # map Suc [0..<n]"
  by (simp add: upt_conv_Cons map_Suc_upt del: upt_Suc)

lemma concat_op_bprop:
  "concat_op height n_emb in_width False (mlp, emb, cat) =
     (modify2 (\<lambda>h w. h * in_width + w) (\<lambda>h w x. x + cat ! ix3 (n_ins n_emb) in_width h 0 w)
        height in_width mlp,
      write3 (\<lambda>e h w. ix3 n_emb in_width h e w)
             (\<lambda>e h w. cat ! ix3 (n_ins n_emb) in_width h (Suc e) w)
             n_emb height in_width emb,
      cat)"
proof -
  let ?gm = "\<lambda>h w. h * in_width + w"
  let ?fm = "\<lambda>h w x. x + cat ! ix3 (n_ins n_emb) in_width h 0 w"
  let ?g = "\<lambda>e h w. ix3 n_emb in_width h e w"
  let ?v = "\<lambda>e h w. cat ! ix3 (n_ins n_emb) in_width h (Suc e) w"
  let ?L = "\<lambda>ni. fold (\<lambda>h. fold (\<lambda>w. concat_body n_emb in_width False ni h w) [0..<in_width])
                  [0..<height]"
  have b0: "concat_body n_emb in_width False 0 h w (a, b, cat) =
              (a[?gm h w := ?fm h w (a ! ?gm h w)], b, cat)" for h w a b
    by (simp add: concat_body_def out_width_def ix3_def Let_def algebra_simps)
  have bs: "concat_body n_emb in_width False (Suc e) h w (a, b, cat) =
              (a, b[?g e h w := ?v e h w], cat)" for e h w a b
    by (simp add: concat_body_def out_width_def ix3_def Let_def algebra_simps)
  have l0: "?L 0 (a, b, cat) = (modify2 ?gm ?fm height in_width a, b, cat)" for a b
    unfolding modify2_def
    by (rule fold_first, rule fold_first) (rule b0)
  have ls: "?L (Suc e) (a, b, cat) =
      (a, fold (\<lambda>h. fold (\<lambda>w b. b[?g e h w := ?v e h w]) [0..<in_width]) [0..<height] b, cat)"
    for e a b
    by (rule fold_second, rule fold_second) (rule bs)
  have "concat_op height n_emb in_width False (mlp, emb, cat) =
          fold (\<lambda>e. ?L (Suc e)) [0..<n_emb] (?L 0 (mlp, emb, cat))"
    by (simp add: concat_op_def n_ins_def upt_Suc_shift fold_map comp_def del: upt_Suc)
  also have "\<dots> = fold (\<lambda>e. ?L (Suc e)) [0..<n_emb]
                     (modify2 ?gm ?fm height in_width mlp, emb, cat)"
    by (simp only: l0)
  also have "\<dots> = (modify2 ?gm ?fm height in_width mlp,
      fold (\<lambda>e. fold (\<lambda>h. fold (\<lambda>w b. b[?g e h w := ?v e h w]) [0..<in_width]) [0..<height])
        [0..<n_emb] emb, cat)"
    by (rule fold_second) (rule ls)
  finally show ?thesis unfolding write3_def .
qed

lemma scatter_emb_nth:
  assumes "h < height" "e < n_emb" "w < in_width" "length emb = height * n_emb * in_width"
  shows "write3 (\<lambda>e h w. ix3 n_emb in_width h e w)
             (\<lambda>e h w. cat ! ix3 (n_ins n_emb) in_width h (Suc e) w)
             n_emb height in_width emb ! ix3 n_emb in_width h e w
         = cat ! ix3 (n_ins n_emb) in_width h (Suc e) w"
proof (rule write3_nth)
  show "ix3 n_emb in_width h e w < length emb"
    using assms by (simp add: ix3_less)
  fix e' h' w'
  assume "e' < n_emb" "h' < height" "w' < in_width"
    and "ix3 n_emb in_width h' e' w' = ix3 n_emb in_width h e w"
  then have "h' = h \<and> e' = e \<and> w' = w" using assms(2,3) by (intro ix3_inj)
  then show "cat ! ix3 (n_ins n_emb) in_width h' (Suc e') w' =
             cat ! ix3 (n_ins n_emb) in_width h (Suc e) w" by simp
qed (use assms in simp_all)

lemma scatter_emb_overwrites:
  assumes "length emb = height * n_emb * in_width" "length emb' = height * n_emb * in_width"
  shows "write3 (\<lambda>e h w. ix3 n_emb in_width h e w)
             (\<lambda>e h w. cat ! ix3 (n_ins n_emb) in_width h (Suc e) w)
             n_emb height in_width emb' =
         write3 (\<lambda>e h w. ix3 n_emb in_width h e w)
             (\<lambda>e h w. cat ! ix3 (n_ins n_emb) in_width h (Suc e) w)
             n_emb height in_width emb"
proof (rule nth_equalityI)
  fix j
  assume "j < length (write3 (\<lambda>e h w. ix3 n_emb in_width h e w)
             (\<lambda>e h w. cat ! ix3 (n_ins n_emb) in_width h (Suc e) w)
             n_emb height in_width emb')"
  then have "j < height * n_emb * in_width" using assms by simp
  then obtain h e w where hew: "h < height" "e < n_emb" "w < in_width"
      and j: "j = ix3 n_emb in_width h e w"
    using ix3_split by blast
  show "write3 (\<lambda>e h w. ix3 n_emb in_width h e w)
             (\<lambda>e h w. cat ! ix3 (n_ins n_emb) in_width h (Suc e) w)
             n_emb height in_width emb' ! j =
        write3 (\<lambda>e h w. ix3 n_emb in_width h e w)
             (\<lambda>e h w. cat ! ix3 (n_ins n_emb) in_width h (Suc e) w)
             n_emb height in_width emb ! j"
    unfolding j using hew assms by (simp add: scatter_emb_nth)
qed (use assms in simp)

subsection \<open>The buffers after the backward pass\<close>

lemma host_bprop_fields:
  "h_mat (host_bprop height n_emb in_width pr s) =
     snd (disassemble height n_emb in_width (h_ref s) (h_in_mlp s, h_mat s))"
  "h_concat (host_bprop height n_emb in_width pr s) =
     recombine height n_emb in_width pr (h_mat (host_bprop height n_emb in_width pr s)) (h_concat s)"
  "h_in_mlp (host_bprop height n_emb in_width pr s) =
     fst (concat_op height n_emb in_width False
        (fst (disassemble height n_emb in_width (h_ref s) (h_in_mlp s, h_mat s)), h_in_emb s,
         h_concat (host_bprop height n_emb in_width pr s)))"
  "h_in_emb (host_bprop height n_emb in_width pr s) =
     fst (snd (concat_op height n_emb in_width False
        (fst (disassemble height n_emb in_width (h_ref s) (h_in_mlp s, h_mat s)), h_in_emb s,
         h_concat (host_bprop height n_emb in_width pr s))))"
  "h_ref (host_bprop height n_emb in_width pr s) = h_ref s"
  by (simp_all add: host_bprop_def concat_op_bprop Let_def split: prod.splits)

subsection \<open>Loops that write consecutive cells through a running index\<close>

lemma fold_counter_write:
  assumes "off + c + length (filter P ks) \<le> length arr"
  shows "fold (\<lambda>k (c, arr). if P k then (c + 1, arr[off + c := v k]) else (c, arr)) ks (c, arr) =
         (c + length (filter P ks),
          take (off + c) arr @ map v (filter P ks) @ drop (off + c + length (filter P ks)) arr)"
  using assms
proof (induction ks arbitrary: c arr)
  case Nil
  then show ?case by simp
next
  case (Cons k ks)
  show ?case
  proof (cases "P k")
    case False
    with Cons show ?thesis by simp
  next
    case True
    let ?arr = "arr[off + c := v k]"
    from True Cons.prems have lt: "off + c < length arr"
      and le: "off + (c + 1) + length (filter P ks) \<le> length ?arr" by simp_all
    have t: "take (off + (c + 1)) ?arr = take (off + c) arr @ [v k]"
      using lt by (simp add: take_Suc_conv_app_nth)
    have d: "drop (off + (c + 1) + length (filter P ks)) ?arr =
             drop (off + (c + 1) + length (filter P ks)) arr"
      by simp
    show ?thesis
      using True Cons.IH [OF le] by (simp only: fold_Cons comp_apply case_prod_conv if_True t d)
         simp
  qed
qed

lemma filter_less_upt: "n \<le> N \<Longrightarrow> filter (\<lambda>m. m < n) [0..<N] = [0..<n]"
  by (induction N) (auto simp: le_Suc_eq)

lemma filter_product_upper:
  "filter (\<lambda>(n, m). m < n) (List.product [0..<N] [0..<N]) = upper_pairs N"
proof -
  have A: "filter (\<lambda>(n, m). m < n) (List.product ns [0..<N]) =
        concat (map (\<lambda>n. map (Pair n) (filter (\<lambda>m. m < n) [0..<N])) ns)" for ns
    by (induction ns) (simp_all add: filter_map comp_def)
  have B: "map (\<lambda>n. map (Pair n) (filter (\<lambda>m. m < n) [0..<N])) [0..<N] =
           map (\<lambda>n. map (Pair n) [0..<n]) [0..<N]"
    by (rule map_cong) (simp_all add: filter_less_upt)
  show ?thesis
    unfolding upper_pairs_def A B ..
qed

lemma length_upper_pairs: "length (upper_pairs N) = N * (N - 1) div 2"
proof (induction N)
  case 0
  then show ?case by (simp add: upper_pairs_def)
next
  case (Suc N)
  have "length (upper_pairs (Suc N)) = length (upper_pairs N) + N"
    by (simp add: upper_pairs_def)
  also have "\<dots> = N * (N - 1) div 2 + N" by (simp add: Suc)
  also have "\<dots> = Suc N * (Suc N - 1) div 2"
    by (cases N) (simp_all add: algebra_simps)
  finally show ?case .
qed

lemma out_len_eq: "out_len n_emb in_width = in_width + length (upper_pairs (n_ins n_emb)) + 1"
proof -
  have "N * (N + 1) div 2 - N = N * (N - 1) div 2" for N :: nat
  proof (cases N)
    case 0
    then show ?thesis by simp
  next
    case (Suc k)
    have "Suc k * (Suc k + 1) = Suc k * k + 2 * Suc k" by (simp add: algebra_simps)
    then show ?thesis using Suc by simp
  qed
  then show ?thesis by (simp add: out_len_def length_upper_pairs)
qed

lemma length_dense_row [simp]: "length (dense_row mlp in_width p) = in_width"
  by (simp add: dense_row_def)

lemma length_triangle [simp]: "length (triangle mat N p) = length (upper_pairs N)"
  by (simp add: triangle_def)

lemma assemble_row_splice:
  assumes "p * out_len n_emb in_width + in_width + length (upper_pairs (n_ins n_emb)) \<le> length arr"
  shows "assemble_row n_emb in_width mlp mat p arr =
           take (p * out_len n_emb in_width) arr @
           (dense_row mlp in_width p @ triangle mat (n_ins n_emb) p) @
           drop (p * out_len n_emb in_width + (in_width + length (upper_pairs (n_ins n_emb)))) arr"
proof -
  let ?off = "p * out_len n_emb in_width"
  let ?N = "n_ins n_emb"
  let ?T = "length (upper_pairs ?N)"
  let ?v = "\<lambda>(n, m). mat ! (p * ?N * ?N + m * ?N + n)"
  have 1: "fold (\<lambda>i (cur_idx, h_ref).
              (cur_idx + 1, h_ref[?off + cur_idx := mlp ! (p * in_width + i)]))
             [0..<in_width] (0, arr) =
           (in_width, take ?off arr @ dense_row mlp in_width p @ drop (?off + in_width) arr)"
    using fold_counter_write [of ?off 0 "\<lambda>_. True" "[0..<in_width]" arr
            "\<lambda>i. mlp ! (p * in_width + i)"] assms
    by (simp add: dense_row_def)
  let ?arr = "take ?off arr @ dense_row mlp in_width p @ drop (?off + in_width) arr"
  have len: "length ?arr = length arr" using assms by simp
  have body: "(\<lambda>(n, m) (cur_idx, h_ref).
                  if n > m
                  then (cur_idx + 1, h_ref[?off + cur_idx := mat ! (p * ?N * ?N + m * ?N + n)])
                  else (cur_idx, h_ref)) =
              (\<lambda>k (c, arr). if (case k of (n, m) \<Rightarrow> m < n) then (c + 1, arr[?off + c := ?v k])
                             else (c, arr))"
    by (auto simp: fun_eq_iff)
  have 2: "fold (\<lambda>n. fold (\<lambda>m (cur_idx, h_ref).
                  if n > m
                  then (cur_idx + 1, h_ref[?off + cur_idx := mat ! (p * ?N * ?N + m * ?N + n)])
                  else (cur_idx, h_ref))
                [0..<?N]) [0..<?N] (in_width, ?arr) =
           (in_width + ?T,
            take (?off + in_width) ?arr @ triangle mat ?N p @ drop (?off + in_width + ?T) ?arr)"
    unfolding fold_fold_product body
    using fold_counter_write [of ?off in_width "\<lambda>(n, m). m < n" "List.product [0..<?N] [0..<?N]"
            ?arr ?v] assms len
    by (simp add: filter_product_upper triangle_def)
  have 3: "take (?off + in_width) ?arr = take ?off arr @ dense_row mlp in_width p"
    using assms by simp
  have 4: "drop (?off + in_width + ?T) ?arr = drop (?off + (in_width + ?T)) arr"
    using assms by (simp add: ac_simps)
  show ?thesis
    unfolding assemble_row_def Let_def 1 2 3 4 by simp
qed

subsection \<open>Arrays made of rows of equal length\<close>

lemma length_concat_rows:
  "(\<And>q. q < k \<Longrightarrow> length (r q) = L) \<Longrightarrow> length (concat (map r [0..<k])) = k * L"
  by (induction k) simp_all

lemma concat_rows_take_drop:
  assumes "\<And>q. q < H \<Longrightarrow> length (r q) = L" and "p < H"
  shows "take L (drop (p * L) (concat (map r [0..<H]))) = r p"
proof -
  have "[0..<H] = [0..<p] @ [p..<H]"
    using upt_add_eq_append [of 0 p "H - p"] assms(2) by simp
  also have "[p..<H] = p # [Suc p..<H]"
    using assms(2) by (rule upt_conv_Cons)
  finally have "[0..<H] = [0..<p] @ p # [Suc p..<H]" .
  then have "concat (map r [0..<H]) =
             concat (map r [0..<p]) @ r p @ concat (map r [Suc p..<H])"
    by simp
  moreover have "length (concat (map r [0..<p])) = p * L"
    using assms by (intro length_concat_rows) simp
  moreover have "length (r p) = L" using assms by simp
  ultimately show ?thesis by simp
qed

lemma fold_splice_rows:
  assumes F: "\<And>p arr. p < H \<Longrightarrow> length arr = H * Suc l \<Longrightarrow>
                F p arr = take (p * Suc l) arr @ seg p @ drop (p * Suc l + l) arr"
    and len: "\<And>p. p < H \<Longrightarrow> length (seg p) = l"
  shows "k \<le> H \<Longrightarrow> fold F [0..<k] (replicate (H * Suc l) z) =
           concat (map (\<lambda>p. seg p @ [z]) [0..<k]) @ replicate ((H - k) * Suc l) z"
proof (induction k)
  case 0
  then show ?case by simp
next
  case (Suc k)
  let ?X = "concat (map (\<lambda>p. seg p @ [z]) [0..<k])"
  let ?R = "replicate ((H - k) * Suc l) z"
  from Suc.prems have k: "k < H" by simp
  have IH: "fold F [0..<k] (replicate (H * Suc l) z) = ?X @ ?R"
    using Suc by simp
  have lX: "length ?X = k * Suc l"
    using k len by (intro length_concat_rows) simp
  have "(H - k) * Suc l = Suc l + (H - Suc k) * Suc l"
    using k by (metis Suc_diff_Suc mult_Suc)
  then have R: "?R = replicate l z @ z # replicate ((H - Suc k) * Suc l) z"
    by (simp only: replicate_add replicate_Suc) (simp add: replicate_append_same)
  have lXR: "length (?X @ ?R) = H * Suc l"
    using k lX by (simp add: add_mult_distrib [symmetric] del: mult_Suc_right mult_Suc)
  have "fold F [0..<Suc k] (replicate (H * Suc l) z) =
        F k (fold F [0..<k] (replicate (H * Suc l) z))"
    by simp
  also have "\<dots> = F k (?X @ ?R)"
    by (simp only: IH)
  also have "\<dots> = take (k * Suc l) (?X @ ?R) @ seg k @ drop (k * Suc l + l) (?X @ ?R)"
    using k lXR by (rule F)
  also have "take (k * Suc l) (?X @ ?R) = ?X" using lX by simp
  also have "drop (k * Suc l + l) (?X @ ?R) = drop l ?R"
    using lX by (simp del: mult_Suc_right)
  also have "drop l ?R = z # replicate ((H - Suc k) * Suc l) z"
    by (subst R) simp
  finally show ?case by simp
qed

subsection \<open>The assembled output\<close>

lemma assemble_eq:
  "assemble height n_emb in_width mlp mat =
     concat (map (\<lambda>p. (dense_row mlp in_width p @ triangle mat (n_ins n_emb) p) @ [0])
                 [0..<height])"
proof -
  let ?l = "in_width + length (upper_pairs (n_ins n_emb))"
  have L: "out_len n_emb in_width = Suc ?l" by (simp add: out_len_eq)
  have "fold (assemble_row n_emb in_width mlp mat) [0..<height] (replicate (height * Suc ?l) 0) =
        concat (map (\<lambda>p. (dense_row mlp in_width p @ triangle mat (n_ins n_emb) p) @ [0])
                 [0..<height]) @ replicate ((height - height) * Suc ?l) 0"
  proof (rule fold_splice_rows)
    fix p and arr :: "'a list"
    assume p: "p < height" and len: "length arr = height * Suc ?l"
    have "p * Suc ?l + ?l < Suc p * Suc ?l" by simp
    also have "\<dots> \<le> height * Suc ?l" using p by (intro mult_le_mono1) simp
    finally have "p * out_len n_emb in_width + in_width + length (upper_pairs (n_ins n_emb))
                    \<le> length arr"
      unfolding L len by simp
    then show "assemble_row n_emb in_width mlp mat p arr =
        take (p * Suc ?l) arr @ (dense_row mlp in_width p @ triangle mat (n_ins n_emb) p) @
        drop (p * Suc ?l + ?l) arr"
      unfolding L [symmetric] by (rule assemble_row_splice)
  qed simp_all
  then show ?thesis by (simp add: assemble_def L)
qed

lemma triangle_columns:
  "triangle mat N p =
     concat (map (\<lambda>n. map (\<lambda>m. mat ! (p * N * N + m * N + n)) [0..<n]) [1..<N])"
proof -
  have "triangle mat N p =
     concat (map (\<lambda>n. map (\<lambda>m. mat ! (p * N * N + m * N + n)) [0..<n]) [0..<N])"
    by (simp add: triangle_def upper_pairs_def map_concat comp_def)
  also have "\<dots> = concat (map (\<lambda>n. map (\<lambda>m. mat ! (p * N * N + m * N + n)) [0..<n]) [1..<N])"
    by (cases N) (simp_all add: upt_conv_Cons del: upt_Suc)
  finally show ?thesis .
qed

lemma triangle_cong:
  assumes "\<And>m n. m < n \<Longrightarrow> n < N \<Longrightarrow> mat ! (p * N * N + m * N + n) = mat' ! (p * N * N + m * N + n)"
  shows "triangle mat N p = triangle mat' N p"
  unfolding triangle_def
  by (rule map_cong) (use assms in \<open>auto simp: upper_pairs_def\<close>)

lemma length_assemble [simp]:
  "length (assemble height n_emb in_width mlp mat) = height * out_len n_emb in_width"
  unfolding assemble_eq
  by (rule length_concat_rows) (simp add: out_len_eq)

lemma assemble_row_eq:
  assumes "p < height"
  shows "take (out_len n_emb in_width) (drop (p * out_len n_emb in_width)
           (assemble height n_emb in_width mlp mat)) =
         (dense_row mlp in_width p @ triangle mat (n_ins n_emb) p) @ [0]"
  unfolding assemble_eq
  by (rule concat_rows_take_drop) (use assms in \<open>simp_all add: out_len_eq\<close>)

lemma assemble_pad:
  assumes "p < height"
  shows "assemble height n_emb in_width mlp mat !
           (p * out_len n_emb in_width + (out_len n_emb in_width - 1)) = 0"
proof -
  let ?L = "out_len n_emb in_width"
  let ?A = "assemble height n_emb in_width mlp mat"
  have L: "?L = Suc (in_width + length (upper_pairs (n_ins n_emb)))" by (simp add: out_len_eq)
  have "p * ?L + ?L = Suc p * ?L" by simp
  also have "\<dots> \<le> height * ?L" using assms by (intro mult_le_mono1) simp
  finally have le: "p * ?L + ?L \<le> length ?A" by simp
  have "?A ! (p * ?L + (?L - 1)) = take ?L (drop (p * ?L) ?A) ! (?L - 1)"
    using le L by simp
  also have "\<dots> = 0"
    unfolding assemble_row_eq [OF assms]
    by (simp add: L nth_append)
  finally show ?thesis .
qed

subsection \<open>A forward pass that fills the strict upper triangle only\<close>

lemma fold_cond_write:
  "fold (\<lambda>k xs. if P k then xs[g k := v k] else xs) ks xs =
   fold (\<lambda>k xs. xs[g k := v k]) (filter P ks) xs"
  by (induction ks arbitrary: xs) simp_all

lemma matmul_upper_nth:
  assumes "p < height" "m < n" "n < n_ins n_emb"
    and "length junk = height * n_ins n_emb * n_ins n_emb"
  shows "matmul_upper height n_emb in_width pr cat junk ! ix3 (n_ins n_emb) (n_ins n_emb) p m n =
         of_float pr (dot_accum pr in_width cat
            (ix3 (n_ins n_emb) in_width p m 0) (ix3 (n_ins n_emb) in_width p n 0))"
proof -
  let ?N = "n_ins n_emb"
  let ?G = "\<lambda>k. case k of (p, m, n) \<Rightarrow> ix3 ?N ?N p m n"
  let ?V = "\<lambda>k. case k of (p, m, n) \<Rightarrow> of_float pr (dot_accum pr in_width cat
            (ix3 ?N in_width p m 0) (ix3 ?N in_width p n 0))"
  let ?P = "\<lambda>k. case k of (p, m, n) \<Rightarrow> m < (n::nat)"
  let ?ks = "List.product [0..<height] (List.product [0..<?N] [0..<?N])"
  have "matmul_upper height n_emb in_width pr cat junk =
        fold (\<lambda>p. fold (\<lambda>m. fold (\<lambda>n xs. if m < n then xs[?G (p, m, n) := ?V (p, m, n)] else xs)
          [0..<?N]) [0..<?N]) [0..<height] junk"
    by (simp add: matmul_upper_def ix3_def Let_def algebra_simps cong: if_cong)
  also have "\<dots> = fold (\<lambda>(p, m, n) xs. if m < n then xs[?G (p, m, n) := ?V (p, m, n)] else xs)
                      ?ks junk"
    by (rule fold3_product)
  also have "(\<lambda>(p, m, n) xs. if m < n then xs[?G (p, m, n) := ?V (p, m, n)] else xs) =
             (\<lambda>k xs. if ?P k then xs[?G k := ?V k] else xs)"
    by (auto simp: fun_eq_iff)
  finally have eq: "matmul_upper height n_emb in_width pr cat junk =
                    fold (\<lambda>k xs. xs[?G k := ?V k]) (filter ?P ?ks) junk"
    by (simp only: fold_cond_write)
  have "fold (\<lambda>k xs. xs[?G k := ?V k]) (filter ?P ?ks) junk ! ?G (p, m, n) = ?V (p, m, n)"
  proof (rule fold_write_nth)
    show "(p, m, n) \<in> set (filter ?P ?ks)" using assms by simp
    show "?G (p, m, n) < length junk" using assms by (simp add: ix3_less)
    fix k' assume k': "k' \<in> set (filter ?P ?ks)" "?G k' = ?G (p, m, n)"
    obtain p' m' n' where [simp]: "k' = (p', m', n')" by (cases k') auto
    from k' have "m' < ?N" "n' < ?N" "ix3 ?N ?N p' m' n' = ix3 ?N ?N p m n" by simp_all
    moreover have "m < ?N" using assms by simp
    ultimately have "p' = p \<and> m' = m \<and> n' = n" using assms(3) by (intro ix3_inj)
    then show "?V k' = ?V (p, m, n)" by simp
  qed
  then show ?thesis by (simp add: eq)
qed

lemma triangle_matmul_upper:
  assumes "p < height" "length junk = height * n_ins n_emb * n_ins n_emb"
    "length mat = height * n_ins n_emb * n_ins n_emb"
  shows "triangle (matmul_upper height n_emb in_width pr cat junk) (n_ins n_emb) p =
         triangle (matmul height n_emb in_width pr cat mat) (n_ins n_emb) p"
proof (rule triangle_cong)
  fix m n assume mn: "m < n" "n < n_ins n_emb"
  have i: "p * n_ins n_emb * n_ins n_emb + m * n_ins n_emb + n = ix3 (n_ins n_emb) (n_ins n_emb) p m n"
    by (simp add: ix3_def algebra_simps)
  from mn have m: "m < n_ins n_emb" by simp
  show "matmul_upper height n_emb in_width pr cat junk ! (p * n_ins n_emb * n_ins n_emb + m * n_ins n_emb + n) =
        matmul height n_emb in_width pr cat mat ! (p * n_ins n_emb * n_ins n_emb + m * n_ins n_emb + n)"
    unfolding i
    by (simp add: matmul_upper_nth [OF assms(1) mn assms(2)] matmul_nth [OF assms(1) m mn(2) assms(3)])
qed

subsection \<open>Loops that read consecutive cells through a running index\<close>

lemma fold_pair:
  assumes "\<And>x a b. F x (a, b) = (G x a, K x b)"
  shows "fold F xs (a, b) = (fold G xs a, fold K xs b)"
  by (induction xs arbitrary: a b) (simp_all add: assms)

lemma fold_counter_read_all:
  "fold (\<lambda>i (c, arr). (c + 1, arr[g i := rd c])) [0..<k] (0, arr) =
   (k, fold (\<lambda>i arr. arr[g i := rd i]) [0..<k] arr)"
  by (induction k) simp_all

lemma fold_counter_read_column:
  "fold (\<lambda>m (c, arr). if n > m then (c + 1, arr[g m := rd c]) else (c, arr[g m := z]))
        [0..<j] (c, arr) =
   (c + min j n, fold (\<lambda>m arr. arr[g m := (if m < n then rd (c + m) else z)]) [0..<j] arr)"
  by (induction j) (simp_all add: min_def)

lemma length_upper_pairs_Suc: "length (upper_pairs (Suc n)) = length (upper_pairs n) + n"
  by (simp add: upper_pairs_def)

lemma fold_counter_read_triangle:
  assumes "j \<le> N"
  shows "fold (\<lambda>n. fold (\<lambda>m (c, arr). if n > m then (c + 1, arr[g n m := rd c])
                                     else (c, arr[g n m := z])) [0..<N])
           [0..<j] (c, arr) =
         (c + length (upper_pairs j),
          fold (\<lambda>n. fold (\<lambda>m arr. arr[g n m :=
                    (if m < n then rd (c + length (upper_pairs n) + m) else z)]) [0..<N])
            [0..<j] arr)"
  using assms
proof (induction j)
  case 0
  then show ?case by (simp add: upper_pairs_def)
next
  case (Suc j)
  then have j: "j \<le> N" "min N j = j" by simp_all
  show ?case
    using Suc.IH [OF j(1)]
    by (simp add: fold_counter_read_column [where g = "g j"] j(2) length_upper_pairs_Suc
          add.assoc)
qed

subsection \<open>The disassembly loop nest\<close>

lemma disassemble_row_eq:
  "disassemble_row n_emb in_width g p (mlp, mat) =
     (fold (\<lambda>i a. a[p * in_width + i := g ! (p * out_len n_emb in_width + i)]) [0..<in_width] mlp,
      fold (\<lambda>n. fold (\<lambda>m a. a[ix3 (n_ins n_emb) (n_ins n_emb) p m n :=
                                   grad_entry n_emb in_width g p n m])
                   [0..<n_ins n_emb])
        [0..<n_ins n_emb] mat)"
proof -
  let ?rd = "\<lambda>c. g ! (p * out_len n_emb in_width + c)"
  have i: "p * n_ins n_emb * n_ins n_emb + m * n_ins n_emb + n =
           ix3 (n_ins n_emb) (n_ins n_emb) p m n" for m n
    by (simp add: ix3_def algebra_simps)
  have 1: "fold (\<lambda>i (cur_idx, h_in_mlp). (cur_idx + 1, h_in_mlp[p * in_width + i := ?rd cur_idx]))
             [0..<in_width] (0, mlp) =
           (in_width, fold (\<lambda>i a. a[p * in_width + i := ?rd i]) [0..<in_width] mlp)"
    by (rule fold_counter_read_all)
  have 2: "fold (\<lambda>n. fold (\<lambda>m (cur_idx, h_mat).
                    if n > m
                    then (cur_idx + 1,
                          h_mat[ix3 (n_ins n_emb) (n_ins n_emb) p m n := ?rd cur_idx])
                    else (cur_idx, h_mat[ix3 (n_ins n_emb) (n_ins n_emb) p m n := 0]))
                  [0..<n_ins n_emb])
             [0..<n_ins n_emb] (in_width, mat) =
           (in_width + length (upper_pairs (n_ins n_emb)),
            fold (\<lambda>n. fold (\<lambda>m a. a[ix3 (n_ins n_emb) (n_ins n_emb) p m n :=
                      (if m < n then ?rd (in_width + length (upper_pairs n) + m) else 0)])
                    [0..<n_ins n_emb])
              [0..<n_ins n_emb] mat)"
    by (rule fold_counter_read_triangle
          [where g = "\<lambda>n m. ix3 (n_ins n_emb) (n_ins n_emb) p m n" and rd = ?rd]) simp
  show ?thesis
    unfolding disassemble_row_def Let_def i grad_entry_def case_prod_conv 1 fst_conv snd_conv 2 ..
qed

lemma disassemble_eq:
  "disassemble height n_emb in_width g (mlp, mat) =
     (modify2 (\<lambda>p i. p * in_width + i) (\<lambda>p i _. g ! (p * out_len n_emb in_width + i))
        height in_width mlp,
      write3 (\<lambda>p n m. ix3 (n_ins n_emb) (n_ins n_emb) p m n)
             (\<lambda>p n m. grad_entry n_emb in_width g p n m)
             height (n_ins n_emb) (n_ins n_emb) mat)"
  unfolding disassemble_def modify2_def write3_def
  by (rule fold_pair) (rule disassemble_row_eq)

lemma disassemble_mlp_nth:
  assumes "p < height" "i < in_width" "length mlp = height * in_width"
  shows "fst (disassemble height n_emb in_width g (mlp, mat)) ! (p * in_width + i) =
         g ! (p * out_len n_emb in_width + i)"
  using assms by (simp add: disassemble_eq modify2_rows_nth)

lemma disassemble_mat_nth:
  assumes "p < height" "m < n_ins n_emb" "n < n_ins n_emb"
    and "length mat = height * n_ins n_emb * n_ins n_emb"
  shows "snd (disassemble height n_emb in_width g (mlp, mat)) ! ix3 (n_ins n_emb) (n_ins n_emb) p m n
         = grad_entry n_emb in_width g p n m"
  unfolding disassemble_eq snd_conv
proof (rule write3_nth [where p = p and m = n and n = m])
  show "ix3 (n_ins n_emb) (n_ins n_emb) p m n < length mat"
    using assms by (simp add: ix3_less)
  fix p' n' m'
  assume "p' < height" "n' < n_ins n_emb" "m' < n_ins n_emb"
    and "ix3 (n_ins n_emb) (n_ins n_emb) p' m' n' = ix3 (n_ins n_emb) (n_ins n_emb) p m n"
  then have "p' = p \<and> m' = m \<and> n' = n" using assms(2,3) by (intro ix3_inj)
  then show "grad_entry n_emb in_width g p' n' m' = grad_entry n_emb in_width g p n m" by simp
qed (use assms in simp_all)

lemma length_disassemble [simp]:
  "length (fst (disassemble height n_emb in_width g (mlp, mat))) = length mlp"
  "length (snd (disassemble height n_emb in_width g (mlp, mat))) = length mat"
  by (simp_all add: disassemble_eq)

lemma length_upper_pairs_mono: "n \<le> N \<Longrightarrow> length (upper_pairs n) \<le> length (upper_pairs N)"
proof (induction N)
  case 0
  then show ?case by simp
next
  case (Suc N)
  show ?case
  proof (cases "n = Suc N")
    case True
    then show ?thesis by simp
  next
    case False
    with Suc.prems have "n \<le> N" by simp
    then have "length (upper_pairs n) \<le> length (upper_pairs N)" by (rule Suc.IH)
    then show ?thesis by (simp add: length_upper_pairs_Suc)
  qed
qed

lemma upper_position_less:
  assumes "m < n" "n < N"
  shows "length (upper_pairs n) + m < length (upper_pairs N)"
proof -
  have "length (upper_pairs n) + m < length (upper_pairs (Suc n))"
    using assms(1) by (simp add: length_upper_pairs_Suc)
  also have "\<dots> \<le> length (upper_pairs N)"
    using assms(2) by (intro length_upper_pairs_mono) simp
  finally show ?thesis .
qed

lemma upper_pairs_positions:
  "map (\<lambda>(n, m). length (upper_pairs n) + m) (upper_pairs N) = [0..<length (upper_pairs N)]"
proof (induction N)
  case 0
  then show ?case by (simp add: upper_pairs_def)
next
  case (Suc N)
  have "upper_pairs (Suc N) = upper_pairs N @ map (Pair N) [0..<N]"
    by (simp add: upper_pairs_def)
  then have "map (\<lambda>(n, m). length (upper_pairs n) + m) (upper_pairs (Suc N)) =
             [0..<length (upper_pairs N)] @ map (\<lambda>m. length (upper_pairs N) + m) [0..<N]"
    by (simp add: Suc comp_def)
  also have "map (\<lambda>m. length (upper_pairs N) + m) [0..<N] =
             [length (upper_pairs N)..<length (upper_pairs N) + N]"
    by (rule nth_equalityI) simp_all
  also have "[0..<length (upper_pairs N)] @ [length (upper_pairs N)..<length (upper_pairs N) + N]
             = [0..<length (upper_pairs (Suc N))]"
    using upt_add_eq_append [of 0 "length (upper_pairs N)" N]
    by (simp add: length_upper_pairs_Suc)
  finally show ?case .
qed

lemma map_nth_take_drop:
  "base + T \<le> length xs \<Longrightarrow> map (\<lambda>j. xs ! (base + j)) [0..<T] = take T (drop base xs)"
  by (rule nth_equalityI) simp_all

lemma write3_cong:
  assumes "\<And>p m n. p < H \<Longrightarrow> m < M \<Longrightarrow> n < N \<Longrightarrow> v p m n = v' p m n"
  shows "write3 g v H M N xs = write3 g v' H M N xs"
  unfolding write3_flat
  by (rule fold_cong) (use assms in auto)

lemma modify2_cong:
  assumes "\<And>h w. h < H \<Longrightarrow> w < W \<Longrightarrow> f h w = f' h w"
  shows "modify2 g f H W xs = modify2 g f' H W xs"
  unfolding modify2_flat
  by (rule fold_cong) (use assms in auto)

lemma disassemble_pad_free:
  assumes "\<And>q c. q < height \<Longrightarrow> c < out_len n_emb in_width - 1 \<Longrightarrow>
             g' ! (q * out_len n_emb in_width + c) = g ! (q * out_len n_emb in_width + c)"
  shows "disassemble height n_emb in_width g' (mlp, mat) =
         disassemble height n_emb in_width g (mlp, mat)"
proof -
  have L: "out_len n_emb in_width - 1 = in_width + length (upper_pairs (n_ins n_emb))"
    by (simp add: out_len_eq)
  have "modify2 (\<lambda>p i. p * in_width + i) (\<lambda>p i _. g' ! (p * out_len n_emb in_width + i))
          height in_width mlp =
        modify2 (\<lambda>p i. p * in_width + i) (\<lambda>p i _. g ! (p * out_len n_emb in_width + i))
          height in_width mlp"
  proof (rule modify2_cong)
    fix h w assume "h < height" "w < in_width"
    then have "g' ! (h * out_len n_emb in_width + w) = g ! (h * out_len n_emb in_width + w)"
      by (intro assms) (simp_all add: out_len_eq)
    then show "(\<lambda>_ :: 'a. g' ! (h * out_len n_emb in_width + w)) =
               (\<lambda>_. g ! (h * out_len n_emb in_width + w))" by simp
  qed
  moreover have "write3 (\<lambda>p n m. ix3 (n_ins n_emb) (n_ins n_emb) p m n)
             (\<lambda>p n m. grad_entry n_emb in_width g' p n m)
             height (n_ins n_emb) (n_ins n_emb) mat =
        write3 (\<lambda>p n m. ix3 (n_ins n_emb) (n_ins n_emb) p m n)
             (\<lambda>p n m. grad_entry n_emb in_width g p n m)
             height (n_ins n_emb) (n_ins n_emb) mat"
  proof (rule write3_cong)
    fix p n m assume "p < height" "n < n_ins n_emb" "m < n_ins n_emb"
    show "grad_entry n_emb in_width g' p n m = grad_entry n_emb in_width g p n m"
    proof (cases "m < n")
      case False
      then show ?thesis by (simp add: grad_entry_def)
    next
      case True
      have "length (upper_pairs n) + m < length (upper_pairs (n_ins n_emb))"
        using True \<open>n < n_ins n_emb\<close> by (rule upper_position_less)
      then have "g' ! (p * out_len n_emb in_width + (in_width + length (upper_pairs n) + m)) =
                 g ! (p * out_len n_emb in_width + (in_width + length (upper_pairs n) + m))"
        using \<open>p < height\<close> by (intro assms) (simp_all add: out_len_eq)
      with True show ?thesis by (simp add: grad_entry_def)
    qed
  qed
  ultimately show ?thesis by (simp add: disassemble_eq)
qed

lemma disassemble_triangle:
  assumes "p < height" "length mat = height * n_ins n_emb * n_ins n_emb"
    and "length g = height * out_len n_emb in_width"
  shows "triangle (snd (disassemble height n_emb in_width g (mlp, mat))) (n_ins n_emb) p =
         take (length (upper_pairs (n_ins n_emb))) (drop (p * out_len n_emb in_width + in_width) g)"
proof -
  let ?N = "n_ins n_emb" and ?L = "out_len n_emb in_width"
  let ?base = "p * ?L + in_width"
  have "triangle (snd (disassemble height n_emb in_width g (mlp, mat))) ?N p =
        map (\<lambda>(n, m). g ! (?base + (length (upper_pairs n) + m))) (upper_pairs ?N)"
    unfolding triangle_def
  proof (rule map_cong [OF refl])
    fix k assume "k \<in> set (upper_pairs ?N)"
    then obtain n m where k: "k = (n, m)" and mn: "m < n" "n < ?N"
      by (auto simp: upper_pairs_def)
    then have m: "m < ?N" by simp
    have "p * ?N * ?N + m * ?N + n = ix3 ?N ?N p m n" by (simp add: ix3_def algebra_simps)
    then show "(case k of (n, m) \<Rightarrow>
            snd (disassemble height n_emb in_width g (mlp, mat)) ! (p * ?N * ?N + m * ?N + n)) =
          (case k of (n, m) \<Rightarrow> g ! (?base + (length (upper_pairs n) + m)))"
      using disassemble_mat_nth [OF assms(1) m mn(2) assms(2), of in_width g mlp] mn
      by (simp add: k grad_entry_def add.assoc)
  qed
  also have "\<dots> = map (\<lambda>j. g ! (?base + j)) (map (\<lambda>(n, m). length (upper_pairs n) + m) (upper_pairs ?N))"
    by (simp add: comp_def case_prod_unfold)
  also have "\<dots> = map (\<lambda>j. g ! (?base + j)) [0..<length (upper_pairs ?N)]"
    by (simp only: upper_pairs_positions)
  also have "\<dots> = take (length (upper_pairs ?N)) (drop ?base g)"
  proof (rule map_nth_take_drop)
    have "?base + length (upper_pairs ?N) < Suc p * ?L" by (simp add: out_len_eq)
    also have "\<dots> \<le> height * ?L" using assms(1) by (intro mult_le_mono1) simp
    finally show "?base + length (upper_pairs ?N) \<le> length g" using assms(3) by simp
  qed
  finally show ?thesis .
qed

subsection \<open>One dense row and one embedding row\<close>







lemma exact_accum:
  assumes "to_float pr = id"
  shows "get_accum pr x y = x * y" "get_sec_accum pr x y z = (x + y) * z"
  by (simp_all add: get_accum_def get_sec_accum_def assms)


lemma length_host_fprop [simp]:
  "length (h_concat (host_fprop height n_emb in_width pr mlp emb)) =
     height * n_ins n_emb * in_width"
  "length (h_mat (host_fprop height n_emb in_width pr mlp emb)) =
     height * n_ins n_emb * n_ins n_emb"
  by (simp_all add: host_fprop_fields(3,4) concat_op_fprop out_width_def)

subsection \<open>The scenario of claim C5 with the half-precision accumulation helpers\<close>

lemma concrete_scenario_half:
  "host_fprop 2 1 2 exact_half [1, 2, 3, 4] [5, 6, 7, 8 :: int] =
   host_fprop 2 1 2 exact [1, 2, 3, 4] [5, 6, 7, 8]"
  "host_bprop 2 1 2 exact_half
     ((host_fprop 2 1 2 exact_half [1, 2, 3, 4] [5, 6, 7, 8 :: int])
        \<lparr>h_ref := [0, 0, 1, 0, a, b, c, d]\<rparr>) =
   host_bprop 2 1 2 exact
     ((host_fprop 2 1 2 exact [1, 2, 3, 4] [5, 6, 7, 8])\<lparr>h_ref := [0, 0, 1, 0, a, b, c, d]\<rparr>)"
  by code_simp+

subsection \<open>The Gram entries in exact arithmetic\<close>

lemma fold_accum_sum:
  "fold (\<lambda>k accum. accum + f k) [0..<n] (0 :: 'a :: comm_monoid_add) = (\<Sum>k<n. f k)"
  by (induction n) (simp_all add: add.commute)

lemma gram_entry_exact_sum:
  fixes mlp emb :: "'a::semiring_1 list" and pr :: "('a, 'a) precision"
  assumes "to_float pr = id" "of_float pr = id"
    and "b < height" "i < n_ins n_emb" "j < n_ins n_emb"
  shows "h_mat (host_fprop height n_emb in_width pr mlp emb) ! ix3 (n_ins n_emb) (n_ins n_emb) b i j =
         (\<Sum>k<in_width. concat_row n_emb in_width mlp emb b i k *
                          concat_row n_emb in_width mlp emb b j k)"
proof -
  let ?fwd = "host_fprop height n_emb in_width pr mlp emb"
  have "h_mat ?fwd ! ix3 (n_ins n_emb) (n_ins n_emb) b i j =
        fold (\<lambda>k accum. accum + get_accum pr (h_concat ?fwd ! ix3 (n_ins n_emb) in_width b i k)
                                            (h_concat ?fwd ! ix3 (n_ins n_emb) in_width b j k))
          [0..<in_width] 0"
    unfolding gram_entry [OF assms(3-5)] by (simp add: assms(2))
  also have "\<dots> = fold (\<lambda>k accum. accum + concat_row n_emb in_width mlp emb b i k *
                                            concat_row n_emb in_width mlp emb b j k)
          [0..<in_width] 0"
    by (rule fold_cong) (simp_all add: exact_accum assms(1) concat_entry assms(3-5))
  finally show ?thesis by (simp only: fold_accum_sum)
qed

subsection \<open>A carrier with infinities and NaN\<close>



subsection \<open>One dense row and one embedding row, in the arithmetic of the program\<close>





section \<open>The claims of the specification\<close>

text \<open>
  Claim C1. The recombination step of the backward pass computes, for every sample \<open>b\<close>, row
  \<open>m\<close> and column \<open>j\<close>, the gradient of the concatenated matrix as the sum over
  \<open>k = 0, \<dots>, n_ins - 1\<close> of \<open>(GramGrad[b,m,k] + GramGrad[b,k,m]) * matrix[b,k,j]\<close>, where
  \<open>matrix\<close> is the concatenated matrix the forward pass left in \<^verbatim>\<open>h_concat\<close> and \<open>GramGrad\<close>
  is the Gram gradient in \<^verbatim>\<open>h_mat\<close>. With \<^verbatim>\<open>__half\<close> storage the three factors are converted
  to the accumulation type and the term is formed there; otherwise the term is formed in the
  storage type (which is \<^verbatim>\<open>float\<close>) and converted. The terms are summed in an accumulator of
  the accumulation type, and the sum is converted to the storage type when it is stored. The
  code multiplies the sum by \<^verbatim>\<open>1.0f\<close> before that, which is assumed to change nothing.
\<close>

theorem recombine_symmetric_sum:
  assumes "\<And>x :: 'f :: {zero,one,plus,times}. 1 * x = x"
    and "length (h_concat s) = height * n_ins n_emb * in_width"
    and "b < height" and "m < n_ins n_emb" and "j < in_width"
  shows "recombine height n_emb in_width (pr :: ('a :: {zero,plus,times}, 'f) precision) mat
           (h_concat s) ! (n_ins n_emb * in_width * b + m * in_width + j) =
         of_float pr (fold (\<lambda>k accum. accum +
            (if is_half pr
             then (to_float pr (mat ! (n_ins n_emb * n_ins n_emb * b + m * n_ins n_emb + k)) +
                   to_float pr (mat ! (n_ins n_emb * n_ins n_emb * b + k * n_ins n_emb + m))) *
                  to_float pr (h_concat s ! (n_ins n_emb * in_width * b + k * in_width + j))
             else to_float pr
                    ((mat ! (n_ins n_emb * n_ins n_emb * b + m * n_ins n_emb + k) +
                      mat ! (n_ins n_emb * n_ins n_emb * b + k * n_ins n_emb + m)) *
                     h_concat s ! (n_ins n_emb * in_width * b + k * in_width + j))))
            [0..<n_ins n_emb] 0)
       \<and> h_concat (host_bprop height n_emb in_width pr s) =
         recombine height n_emb in_width pr (h_mat (host_bprop height n_emb in_width pr s))
           (h_concat s)"
proof -
  have "n_ins n_emb * in_width * b + m * in_width + j = ix3 (n_ins n_emb) in_width b m j"
    by (simp add: ix3_def algebra_simps)
  then have "recombine height n_emb in_width pr mat (h_concat s) !
               (n_ins n_emb * in_width * b + m * in_width + j) =
             of_float pr (1 * sec_accum pr n_emb in_width mat (h_concat s)
                 (n_ins n_emb * n_ins n_emb * b) (n_ins n_emb * in_width * b) m j)"
    using assms(2-5) by (simp add: recombine_nth)
  then show ?thesis
    by (simp add: assms(1) sec_accum_def get_sec_accum_def host_bprop_fields(2))
qed

theorem recombine_symmetric_sum_witness:
  "recombine 2 1 2 (exact :: (int, int) precision) [0, 1, 0, 0, 0, 0, 0, 0]
           (h_concat (host_fprop 2 1 2 exact [1, 2, 3, 4] [5, 6, 7, 8])) !
           (n_ins 1 * 2 * 0 + 1 * 2 + 0) =
         of_float exact (fold (\<lambda>k accum. accum +
            (if is_half (exact :: (int, int) precision)
             then (to_float exact ([0, 1, 0, 0, 0, 0, 0, 0] ! (n_ins 1 * n_ins 1 * 0 + 1 * n_ins 1 + k)) +
                   to_float exact ([0, 1, 0, 0, 0, 0, 0, 0] ! (n_ins 1 * n_ins 1 * 0 + k * n_ins 1 + 1))) *
                  to_float exact (h_concat (host_fprop 2 1 2 exact [1, 2, 3, 4] [5, 6, 7, 8]) !
                                    (n_ins 1 * 2 * 0 + k * 2 + 0))
             else to_float exact
                    (([0, 1, 0, 0, 0, 0, 0, 0] ! (n_ins 1 * n_ins 1 * 0 + 1 * n_ins 1 + k) +
                      [0, 1, 0, 0, 0, 0, 0, 0] ! (n_ins 1 * n_ins 1 * 0 + k * n_ins 1 + 1)) *
                     h_concat (host_fprop 2 1 2 exact [1, 2, 3, 4] [5, 6, 7, 8]) !
                       (n_ins 1 * 2 * 0 + k * 2 + 0))))
            [0..<n_ins 1] 0)
   \<and> h_concat (host_bprop 2 1 2 (exact :: (int, int) precision)
          (host_fprop 2 1 2 exact [1, 2, 3, 4] [5, 6, 7, 8])) =
         recombine 2 1 2 exact
           (h_mat (host_bprop 2 1 2 exact (host_fprop 2 1 2 exact [1, 2, 3, 4] [5, 6, 7, 8])))
           (h_concat (host_fprop 2 1 2 exact [1, 2, 3, 4] [5, 6, 7, 8]))"
proof -
  have len: "length (h_concat (host_fprop 2 1 2 (exact :: (int, int) precision)
                [1, 2, 3, 4] [5, 6, 7, 8])) = 2 * n_ins 1 * 2"
    by code_simp
  show ?thesis
    by (rule recombine_symmetric_sum [OF _ len]) (simp_all add: n_ins_def)
qed

text \<open>
  Claim C2. For every input of the right shape, the forward pass gives every sample an
  output row of length \<open>out_len = in_width + n_ins * (n_ins - 1) / 2 + 1\<close>. The row is the
  \<open>in_width\<close> dense values of the sample, then the entries of the strict upper triangle of
  its Gram matrix column by column (for \<open>n = 1, \<dots>, n_ins - 1\<close>, for \<open>m = 0, \<dots>, n - 1\<close>, the
  entry \<open>Gram[m,n]\<close>), then one more element, which is \<open>0\<close>. The statement holds for every
  \<open>n_ins \<ge> 1\<close>, so in particular for \<open>n_ins \<ge> 2\<close>.
\<close>

theorem output_layout:
  assumes "length mlp = height * in_width" and "length emb = height * n_emb * in_width"
    and "p < height"
  shows "out_len n_emb in_width = in_width + n_ins n_emb * (n_ins n_emb - 1) div 2 + 1
       \<and> length (h_ref (host_fprop height n_emb in_width pr mlp emb)) =
           height * out_len n_emb in_width
       \<and> take (out_len n_emb in_width) (drop (p * out_len n_emb in_width)
            (h_ref (host_fprop height n_emb in_width pr mlp emb))) =
           map (\<lambda>i. mlp ! (p * in_width + i)) [0..<in_width] @
           concat (map (\<lambda>n. map (\<lambda>m. h_mat (host_fprop height n_emb in_width pr mlp emb) !
                                      (p * n_ins n_emb * n_ins n_emb + m * n_ins n_emb + n))
                              [0..<n])
                       [1..<n_ins n_emb]) @
           [0]
       \<and> h_ref (host_fprop height n_emb in_width pr mlp emb) !
           (p * out_len n_emb in_width + (out_len n_emb in_width - 1)) = 0"
proof -
  have "out_len n_emb in_width = in_width + n_ins n_emb * (n_ins n_emb - 1) div 2 + 1"
    by (simp add: out_len_eq length_upper_pairs)
  moreover have "take (out_len n_emb in_width) (drop (p * out_len n_emb in_width)
            (h_ref (host_fprop height n_emb in_width pr mlp emb))) =
           map (\<lambda>i. mlp ! (p * in_width + i)) [0..<in_width] @
           concat (map (\<lambda>n. map (\<lambda>m. h_mat (host_fprop height n_emb in_width pr mlp emb) !
                                      (p * n_ins n_emb * n_ins n_emb + m * n_ins n_emb + n))
                              [0..<n])
                       [1..<n_ins n_emb]) @
           [0]"
    unfolding host_fprop_fields(5) assemble_row_eq [OF assms(3)]
    by (simp add: dense_row_def triangle_columns)
  moreover have "h_ref (host_fprop height n_emb in_width pr mlp emb) !
           (p * out_len n_emb in_width + (out_len n_emb in_width - 1)) = 0"
    unfolding host_fprop_fields(5) using assms(3) by (rule assemble_pad)
  moreover have "length (h_ref (host_fprop height n_emb in_width pr mlp emb)) =
           height * out_len n_emb in_width"
    by (simp add: host_fprop_fields(5))
  ultimately show ?thesis by blast
qed

theorem output_layout_witness:
  "out_len 1 2 = 2 + n_ins 1 * (n_ins 1 - 1) div 2 + 1
   \<and> length (h_ref (host_fprop 2 1 2 exact [1, 2, 3, 4] [5, 6, 7, 8 :: int])) = 2 * out_len 1 2
   \<and> take (out_len 1 2) (drop (1 * out_len 1 2)
            (h_ref (host_fprop 2 1 2 exact [1, 2, 3, 4] [5, 6, 7, 8 :: int]))) =
           map (\<lambda>i. [1, 2, 3, 4] ! (1 * 2 + i)) [0..<2] @
           concat (map (\<lambda>n. map (\<lambda>m. h_mat (host_fprop 2 1 2 exact [1, 2, 3, 4] [5, 6, 7, 8]) !
                                      (1 * n_ins 1 * n_ins 1 + m * n_ins 1 + n))
                              [0..<n])
                       [1..<n_ins 1]) @
           [0]
   \<and> h_ref (host_fprop 2 1 2 exact [1, 2, 3, 4] [5, 6, 7, 8 :: int]) !
           (1 * out_len 1 2 + (out_len 1 2 - 1)) = 0"
  by (rule output_layout) simp_all

text \<open>
  Claim C3. For every sample \<open>b\<close> and all rows \<open>i\<close>, \<open>j\<close> of the concatenated matrix, the
  forward pass stores in \<open>Gram[b,i,j]\<close> the dot product of rows \<open>i\<close> and \<open>j\<close>: the sum over
  \<open>k = 0, \<dots>, in_width - 1\<close> of \<open>matrix[b,i,k] * matrix[b,j,k]\<close>. With \<^verbatim>\<open>__half\<close> storage both
  factors are converted to the accumulation type and multiplied there; otherwise they are
  multiplied in the storage type (which is \<^verbatim>\<open>float\<close>) and the product is converted. The
  products are summed in an accumulator of the accumulation type, whatever the storage type
  is, and the sum is converted to the storage type once, when it is stored. Row 0 of the
  concatenated matrix is the dense vector of the sample and row \<open>i > 0\<close> its embedding vector
  \<open>i - 1\<close>.
\<close>

theorem gram_forward_dot_product:
  assumes "length mlp = height * in_width" and "length emb = height * n_emb * in_width"
    and "b < height" and "i < n_ins n_emb" and "j < n_ins n_emb"
  shows "h_mat (host_fprop height n_emb in_width pr mlp emb) !
           (n_ins n_emb * n_ins n_emb * b + i * n_ins n_emb + j) =
         of_float pr (fold (\<lambda>k accum. accum +
            (if is_half pr
             then to_float pr (h_concat (host_fprop height n_emb in_width pr mlp emb) !
                                 (n_ins n_emb * in_width * b + i * in_width + k)) *
                  to_float pr (h_concat (host_fprop height n_emb in_width pr mlp emb) !
                                 (n_ins n_emb * in_width * b + j * in_width + k))
             else to_float pr
                    (h_concat (host_fprop height n_emb in_width pr mlp emb) !
                       (n_ins n_emb * in_width * b + i * in_width + k) *
                     h_concat (host_fprop height n_emb in_width pr mlp emb) !
                       (n_ins n_emb * in_width * b + j * in_width + k))))
            [0..<in_width] 0)
       \<and> (k < in_width \<longrightarrow>
            h_concat (host_fprop height n_emb in_width pr mlp emb) !
              (n_ins n_emb * in_width * b + i * in_width + k) =
            (if i = 0 then mlp ! (b * in_width + k)
             else emb ! ((i - 1) * in_width + b * in_width * n_emb + k)))"
proof -
  have a: "n_ins n_emb * n_ins n_emb * b + i * n_ins n_emb + j
             = ix3 (n_ins n_emb) (n_ins n_emb) b i j"
    and c: "\<And>r k. n_ins n_emb * in_width * b + r * in_width + k = ix3 (n_ins n_emb) in_width b r k"
    and e: "\<And>k. (i - 1) * in_width + b * in_width * n_emb + k = ix3 n_emb in_width b (i - 1) k"
    by (simp_all add: ix3_def algebra_simps)
  show ?thesis
    unfolding a c e using assms(3-5)
    by (simp add: gram_entry get_accum_def concat_entry concat_row_def)
qed

theorem gram_forward_dot_product_witness:
  "h_mat (host_fprop 2 1 2 exact [1, 2, 3, 4] [5, 6, 7, 8 :: int]) !
           (n_ins 1 * n_ins 1 * 0 + 0 * n_ins 1 + 1) =
         of_float exact (fold (\<lambda>k accum. accum +
            (if is_half (exact :: (int, int) precision)
             then to_float exact (h_concat (host_fprop 2 1 2 exact [1, 2, 3, 4] [5, 6, 7, 8]) !
                                 (n_ins 1 * 2 * 0 + 0 * 2 + k)) *
                  to_float exact (h_concat (host_fprop 2 1 2 exact [1, 2, 3, 4] [5, 6, 7, 8]) !
                                 (n_ins 1 * 2 * 0 + 1 * 2 + k))
             else to_float exact
                    (h_concat (host_fprop 2 1 2 exact [1, 2, 3, 4] [5, 6, 7, 8]) !
                       (n_ins 1 * 2 * 0 + 0 * 2 + k) *
                     h_concat (host_fprop 2 1 2 exact [1, 2, 3, 4] [5, 6, 7, 8]) !
                       (n_ins 1 * 2 * 0 + 1 * 2 + k))))
            [0..<2] 0)
   \<and> h_concat (host_fprop 2 1 2 exact [1, 2, 3, 4] [5, 6, 7, 8 :: int]) !
              (n_ins 1 * 2 * 0 + 0 * 2 + 1) =
            (if (0::nat) = 0 then [1, 2, 3, 4] ! (0 * 2 + 1)
             else [5, 6, 7, 8] ! ((0 - 1) * 2 + 0 * 2 * 1 + 1))"
  using gram_forward_dot_product
    [of "[1, 2, 3, 4 :: int]" 2 2 "[5, 6, 7, 8]" 1 0 0 1 exact 1]
  by (simp add: n_ins_def)

text \<open>
  Claim C4. The disassembly step of the backward pass reads the output gradient \<open>g\<close> of shape
  \<open>[height, out_len]\<close> row by row. The first \<open>in_width\<close> values of a row become the dense
  gradient of the sample, unchanged. The next \<open>n_ins * (n_ins - 1) / 2\<close> values are stored
  into \<open>GramGrad\<close> at the positions \<open>(m, n)\<close> with \<open>n > m\<close>, in the order in which the forward
  pass emitted them (so the strict upper triangle of \<open>GramGrad\<close>, read column by column, is
  that segment of the row); every other cell of \<open>GramGrad\<close>, the diagonal and the lower
  triangle included, becomes \<open>0\<close>. The last value of a row is never read: two output
  gradients that differ only there lead to the same buffers after the whole backward pass.
\<close>

theorem disassemble_scatter:
  assumes "length (h_ref s) = height * out_len n_emb in_width"
    and "length (h_in_mlp s) = height * in_width"
    and "length (h_mat s) = height * n_ins n_emb * n_ins n_emb"
  shows "(p < height \<and> i < in_width \<longrightarrow>
            fst (disassemble height n_emb in_width (h_ref s) (h_in_mlp s, h_mat s)) !
              (p * in_width + i) =
            h_ref s ! (p * out_len n_emb in_width + i))
       \<and> (p < height \<and> m < n_ins n_emb \<and> n < n_ins n_emb \<longrightarrow>
            h_mat (host_bprop height n_emb in_width pr s) !
              (p * n_ins n_emb * n_ins n_emb + m * n_ins n_emb + n) =
            (if n > m
             then h_ref s ! (p * out_len n_emb in_width + (in_width + n * (n - 1) div 2 + m))
             else 0))
       \<and> (p < height \<longrightarrow>
            concat (map (\<lambda>n. map (\<lambda>m. h_mat (host_bprop height n_emb in_width pr s) !
                                       (p * n_ins n_emb * n_ins n_emb + m * n_ins n_emb + n))
                               [0..<n])
                        [1..<n_ins n_emb]) =
            take (n_ins n_emb * (n_ins n_emb - 1) div 2)
              (drop (p * out_len n_emb in_width + in_width) (h_ref s)))
       \<and> ((\<forall>q<height. \<forall>c<out_len n_emb in_width - 1.
              g' ! (q * out_len n_emb in_width + c) = h_ref s ! (q * out_len n_emb in_width + c)) \<longrightarrow>
            host_bprop height n_emb in_width pr (s\<lparr>h_ref := g'\<rparr>) =
            (host_bprop height n_emb in_width pr s)\<lparr>h_ref := g'\<rparr>)"
proof -
  let ?N = "n_ins n_emb" and ?L = "out_len n_emb in_width"
  have i: "p * ?N * ?N + m * ?N + n = ix3 ?N ?N p m n" for m n
    by (simp add: ix3_def algebra_simps)
  have a: "p < height \<and> i < in_width \<longrightarrow>
            fst (disassemble height n_emb in_width (h_ref s) (h_in_mlp s, h_mat s)) !
              (p * in_width + i) = h_ref s ! (p * ?L + i)"
    using assms(2) by (simp add: disassemble_mlp_nth)
  have b: "p < height \<and> m < ?N \<and> n < ?N \<longrightarrow>
            h_mat (host_bprop height n_emb in_width pr s) ! (p * ?N * ?N + m * ?N + n) =
            (if n > m then h_ref s ! (p * ?L + (in_width + n * (n - 1) div 2 + m)) else 0)"
    unfolding i host_bprop_fields(1) using assms(3)
    by (simp add: disassemble_mat_nth grad_entry_def length_upper_pairs)
  have c: "p < height \<longrightarrow>
            concat (map (\<lambda>n. map (\<lambda>m. h_mat (host_bprop height n_emb in_width pr s) !
                                       (p * ?N * ?N + m * ?N + n)) [0..<n]) [1..<?N]) =
            take (?N * (?N - 1) div 2) (drop (p * ?L + in_width) (h_ref s))"
    unfolding host_bprop_fields(1) triangle_columns [symmetric] length_upper_pairs [symmetric]
    using assms(1,3) by (simp add: disassemble_triangle)
  have d: "(\<forall>q<height. \<forall>c<?L - 1. g' ! (q * ?L + c) = h_ref s ! (q * ?L + c)) \<longrightarrow>
            host_bprop height n_emb in_width pr (s\<lparr>h_ref := g'\<rparr>) =
            (host_bprop height n_emb in_width pr s)\<lparr>h_ref := g'\<rparr>"
  proof
    assume "\<forall>q<height. \<forall>c<?L - 1. g' ! (q * ?L + c) = h_ref s ! (q * ?L + c)"
    then have "disassemble height n_emb in_width g' (h_in_mlp s, h_mat s) =
               disassemble height n_emb in_width (h_ref s) (h_in_mlp s, h_mat s)"
      by (intro disassemble_pad_free) simp
    then show "host_bprop height n_emb in_width pr (s\<lparr>h_ref := g'\<rparr>) =
            (host_bprop height n_emb in_width pr s)\<lparr>h_ref := g'\<rparr>"
      by (simp add: host_bprop_def Let_def split: prod.splits)
  qed
  from a b c d show ?thesis by blast
qed

theorem disassemble_scatter_witness:
  "fst (disassemble 1 1 2 (h_ref \<lparr>h_in_mlp = [1, 2 :: int], h_in_emb = [5, 6], h_concat = [1, 2, 5, 6],
        h_mat = [5, 17, 17, 61], h_ref = [0, 0, 1, 0]\<rparr>) (h_in_mlp \<lparr>h_in_mlp = [1, 2 :: int], h_in_emb = [5, 6], h_concat = [1, 2, 5, 6],
        h_mat = [5, 17, 17, 61], h_ref = [0, 0, 1, 0]\<rparr>, h_mat \<lparr>h_in_mlp = [1, 2 :: int], h_in_emb = [5, 6], h_concat = [1, 2, 5, 6],
        h_mat = [5, 17, 17, 61], h_ref = [0, 0, 1, 0]\<rparr>)) ! (0 * 2 + 1) =
     h_ref \<lparr>h_in_mlp = [1, 2 :: int], h_in_emb = [5, 6], h_concat = [1, 2, 5, 6],
        h_mat = [5, 17, 17, 61], h_ref = [0, 0, 1, 0]\<rparr> ! (0 * out_len 1 2 + 1)
   \<and> h_mat (host_bprop 1 1 2 (exact :: (int, int) precision) \<lparr>h_in_mlp = [1, 2 :: int], h_in_emb = [5, 6], h_concat = [1, 2, 5, 6],
        h_mat = [5, 17, 17, 61], h_ref = [0, 0, 1, 0]\<rparr>) ! (0 * n_ins 1 * n_ins 1 + 0 * n_ins 1 + 1) =
     (if (1::nat) > 0 then h_ref \<lparr>h_in_mlp = [1, 2 :: int], h_in_emb = [5, 6], h_concat = [1, 2, 5, 6],
        h_mat = [5, 17, 17, 61], h_ref = [0, 0, 1, 0]\<rparr> ! (0 * out_len 1 2 + (2 + 1 * (1 - 1) div 2 + 0)) else 0)
   \<and> concat (map (\<lambda>n. map (\<lambda>m. h_mat (host_bprop 1 1 2 (exact :: (int, int) precision) \<lparr>h_in_mlp = [1, 2 :: int], h_in_emb = [5, 6], h_concat = [1, 2, 5, 6],
        h_mat = [5, 17, 17, 61], h_ref = [0, 0, 1, 0]\<rparr>) !
           (0 * n_ins 1 * n_ins 1 + m * n_ins 1 + n)) [0..<n]) [1..<n_ins 1]) =
     take (n_ins 1 * (n_ins 1 - 1) div 2) (drop (0 * out_len 1 2 + 2) (h_ref \<lparr>h_in_mlp = [1, 2 :: int], h_in_emb = [5, 6], h_concat = [1, 2, 5, 6],
        h_mat = [5, 17, 17, 61], h_ref = [0, 0, 1, 0]\<rparr>))
   \<and> host_bprop 1 1 2 (exact :: (int, int) precision) (\<lparr>h_in_mlp = [1, 2 :: int], h_in_emb = [5, 6], h_concat = [1, 2, 5, 6],
        h_mat = [5, 17, 17, 61], h_ref = [0, 0, 1, 0]\<rparr>\<lparr>h_ref := [0, 0, 1, 7]\<rparr>) =
     (host_bprop 1 1 2 (exact :: (int, int) precision) \<lparr>h_in_mlp = [1, 2 :: int], h_in_emb = [5, 6], h_concat = [1, 2, 5, 6],
        h_mat = [5, 17, 17, 61], h_ref = [0, 0, 1, 0]\<rparr>)\<lparr>h_ref := [0, 0, 1, 7]\<rparr>"
proof -
  have L: "out_len 1 2 = 4" by (simp add: out_len_def n_ins_def)
  have pad: "\<forall>q<1. \<forall>c<out_len 1 2 - 1.
         [0, 0, 1, 7] ! (q * out_len 1 2 + c) = h_ref \<lparr>h_in_mlp = [1, 2 :: int], h_in_emb = [5, 6], h_concat = [1, 2, 5, 6],
        h_mat = [5, 17, 17, 61], h_ref = [0, 0, 1, 0]\<rparr> ! (q * out_len 1 2 + c)"
    unfolding L by (auto simp: less_Suc_eq numeral_3_eq_3)
  have h: "(0::nat) < 1 \<and> (1::nat) < 2" "(0::nat) < 1 \<and> 0 < n_ins 1 \<and> 1 < n_ins 1" "(0::nat) < 1"
    by (simp_all add: n_ins_def)
  have "length (h_ref \<lparr>h_in_mlp = [1, 2 :: int], h_in_emb = [5, 6], h_concat = [1, 2, 5, 6],
        h_mat = [5, 17, 17, 61], h_ref = [0, 0, 1, 0]\<rparr>) = 1 * out_len 1 2"
    and "length (h_in_mlp \<lparr>h_in_mlp = [1, 2 :: int], h_in_emb = [5, 6], h_concat = [1, 2, 5, 6],
        h_mat = [5, 17, 17, 61], h_ref = [0, 0, 1, 0]\<rparr>) = 1 * 2"
    and "length (h_mat \<lparr>h_in_mlp = [1, 2 :: int], h_in_emb = [5, 6], h_concat = [1, 2, 5, 6],
        h_mat = [5, 17, 17, 61], h_ref = [0, 0, 1, 0]\<rparr>) = 1 * n_ins 1 * n_ins 1"
    by (simp_all add: out_len_def n_ins_def)
  from disassemble_scatter [OF this, where p = 0 and i = 1 and m = 0 and n = 1
         and g' = "[0, 0, 1, 7]" and pr = "(exact :: (int, int) precision)"] h pad
  show ?thesis by blast
qed

text \<open>
  Claim C5. The concrete scenario \<open>height = 2\<close>, \<open>in_width = 2\<close>, \<open>n_emb = 1\<close>,
  \<open>dense = [[1,2],[3,4]]\<close>, \<open>emb = [[[5,6]],[[7,8]]]\<close>, in exact arithmetic (all the values
  are small integers). Forward: sample 0 has the Gram matrix \<open>[[5,17],[17,61]]\<close> and the
  output row \<open>[1,2,17,0]\<close>. Backward with \<open>outputGrad[0] = [0,0,1,0]\<close> and any gradient
  row \<open>[a,b,c,d]\<close> for sample 1: \<open>GramGrad[0] = [[0,1],[0,0]]\<close>, the dense pass-through of
  sample 0 is \<open>[0,0]\<close> and its dense gradient after the accumulation is \<open>[5,6]\<close>, and the
  embedding gradient of sample 0 is \<open>[1,2]\<close>.
\<close>

theorem concrete_scenario:
  "take 4 (h_mat (host_fprop 2 1 2 exact [1, 2, 3, 4] [5, 6, 7, 8 :: int])) = [5, 17, 17, 61]
   \<and> take 4 (h_ref (host_fprop 2 1 2 exact [1, 2, 3, 4] [5, 6, 7, 8 :: int])) = [1, 2, 17, 0]
   \<and> take 4 (h_mat (host_bprop 2 1 2 exact
         ((host_fprop 2 1 2 exact [1, 2, 3, 4] [5, 6, 7, 8 :: int])
            \<lparr>h_ref := [0, 0, 1, 0, a, b, c, d]\<rparr>))) = [0, 1, 0, 0]
   \<and> take 2 (fst (disassemble 2 1 2 [0, 0, 1, 0, a, b, c, d]
         ([1, 2, 3, 4], h_mat (host_fprop 2 1 2 exact [1, 2, 3, 4] [5, 6, 7, 8 :: int])))) = [0, 0]
   \<and> take 2 (h_in_mlp (host_bprop 2 1 2 exact
         ((host_fprop 2 1 2 exact [1, 2, 3, 4] [5, 6, 7, 8 :: int])
            \<lparr>h_ref := [0, 0, 1, 0, a, b, c, d]\<rparr>))) = [5, 6]
   \<and> take 2 (h_in_emb (host_bprop 2 1 2 exact
         ((host_fprop 2 1 2 exact [1, 2, 3, 4] [5, 6, 7, 8 :: int])
            \<lparr>h_ref := [0, 0, 1, 0, a, b, c, d]\<rparr>))) = [1, 2]"
  by code_simp

text \<open>
  Claim C6. In the backward scatter step (\<^verbatim>\<open>concat_op(false)\<close>) the dense gradient of every
  sample is accumulated: row 0 of the gradient of the concatenated matrix is added to what the
  dense buffer held. Every embedding gradient row is assigned from rows \<open>1, \<dots>, n_emb\<close> of
  that gradient, so the embedding buffer after the step does not depend on what it held
  before. The gradient of the concatenated matrix itself is left as it was.
\<close>

theorem scatter_accumulates_dense_overwrites_embedding:
  assumes "length mlp = height * in_width"
    and "length emb = height * n_emb * in_width"
    and "length emb' = height * n_emb * in_width"
  shows "(h < height \<and> w < in_width \<longrightarrow>
            fst (concat_op height n_emb in_width False (mlp, emb, cat)) ! (h * in_width + w) =
            mlp ! (h * in_width + w) + cat ! (h * out_width n_emb in_width + 0 * in_width + w))
       \<and> (h < height \<and> e < n_emb \<and> w < in_width \<longrightarrow>
            fst (snd (concat_op height n_emb in_width False (mlp, emb, cat))) !
              (h * in_width * n_emb + w + e * in_width) =
            cat ! (h * out_width n_emb in_width + (e + 1) * in_width + w))
       \<and> fst (snd (concat_op height n_emb in_width False (mlp, emb', cat))) =
         fst (snd (concat_op height n_emb in_width False (mlp, emb, cat)))
       \<and> snd (snd (concat_op height n_emb in_width False (mlp, emb, cat))) = cat"
proof -
  have i0: "h * out_width n_emb in_width + 0 * in_width + w = ix3 (n_ins n_emb) in_width h 0 w"
    and i1: "h * out_width n_emb in_width + (e + 1) * in_width + w
               = ix3 (n_ins n_emb) in_width h (Suc e) w"
    and i2: "h * in_width * n_emb + w + e * in_width = ix3 n_emb in_width h e w"
    by (simp_all add: ix3_def out_width_def algebra_simps)
  have dense: "h < height \<and> w < in_width \<longrightarrow>
            fst (concat_op height n_emb in_width False (mlp, emb, cat)) ! (h * in_width + w) =
            mlp ! (h * in_width + w) + cat ! ix3 (n_ins n_emb) in_width h 0 w"
    using assms(1) by (simp add: concat_op_bprop modify2_rows_nth)
  have embd: "h < height \<and> e < n_emb \<and> w < in_width \<longrightarrow>
            fst (snd (concat_op height n_emb in_width False (mlp, emb, cat))) !
              ix3 n_emb in_width h e w = cat ! ix3 (n_ins n_emb) in_width h (Suc e) w"
    using assms(2) by (simp add: concat_op_bprop scatter_emb_nth)
  have over: "fst (snd (concat_op height n_emb in_width False (mlp, emb', cat))) =
         fst (snd (concat_op height n_emb in_width False (mlp, emb, cat)))"
    unfolding concat_op_bprop fst_conv snd_conv
    by (rule scatter_emb_overwrites) (use assms in simp_all)
  have frame: "snd (snd (concat_op height n_emb in_width False (mlp, emb, cat))) = cat"
    by (simp add: concat_op_bprop)
  show ?thesis
    unfolding i0 i1 i2 using dense embd over frame by blast
qed

theorem scatter_accumulates_dense_overwrites_embedding_witness:
  "fst (concat_op 1 1 2 False ([10, 20], [7, 7], [1, 2, 3, 4 :: int])) ! (0 * 2 + 1) =
            [10, 20] ! (0 * 2 + 1) + [1, 2, 3, 4] ! (0 * out_width 1 2 + 0 * 2 + 1)
   \<and> fst (snd (concat_op 1 1 2 False ([10, 20], [7, 7], [1, 2, 3, 4 :: int]))) !
              (0 * 2 * 1 + 1 + 0 * 2) =
            [1, 2, 3, 4] ! (0 * out_width 1 2 + (0 + 1) * 2 + 1)
   \<and> fst (snd (concat_op 1 1 2 False ([10, 20], [0, 0], [1, 2, 3, 4 :: int]))) =
     fst (snd (concat_op 1 1 2 False ([10, 20], [7, 7], [1, 2, 3, 4])))
   \<and> snd (snd (concat_op 1 1 2 False ([10, 20], [7, 7], [1, 2, 3, 4 :: int]))) = [1, 2, 3, 4]"
  using scatter_accumulates_dense_overwrites_embedding
    [of "[10, 20 :: int]" 1 2 "[7, 7]" 1 "[0, 0]" 0 1 "[1, 2, 3, 4]" 0]
  by simp




text \<open>
  Claim C8. The forward pass computes the whole \<open>n_ins \<times> n_ins\<close> Gram matrix of every sample:
  for all \<open>i\<close>, \<open>j\<close> below \<open>n_ins\<close>, on the diagonal and in both triangles, cell \<open>(i, j)\<close> holds
  the dot product of rows \<open>i\<close> and \<open>j\<close> of the concatenated matrix, summed over
  \<open>k = 0, \<dots>, in_width - 1\<close> in the accumulation type. The matrix is symmetric: cells \<open>(i, j)\<close>
  and \<open>(j, i)\<close> are the same sum, over the same \<open>k\<close> in the same order, of products of the same
  two factors. The only law used is that multiplication commutes, in the storage type and
  in the accumulation type.
\<close>

theorem gram_symmetric:
  assumes "\<And>x y :: 'a :: {zero,plus,times}. x * y = y * x"
    and "\<And>x y :: 'f :: {zero,plus,times}. x * y = y * x"
    and "b < height" and "i < n_ins n_emb" and "j < n_ins n_emb"
  shows "length (h_mat (host_fprop height n_emb in_width pr mlp emb)) =
           height * n_ins n_emb * n_ins n_emb
       \<and> h_mat (host_fprop height n_emb in_width (pr :: ('a, 'f) precision) mlp emb) !
           (n_ins n_emb * n_ins n_emb * b + i * n_ins n_emb + j) =
         of_float pr (fold (\<lambda>k accum. accum +
            (if is_half pr
             then to_float pr (h_concat (host_fprop height n_emb in_width pr mlp emb) !
                                 (n_ins n_emb * in_width * b + i * in_width + k)) *
                  to_float pr (h_concat (host_fprop height n_emb in_width pr mlp emb) !
                                 (n_ins n_emb * in_width * b + j * in_width + k))
             else to_float pr
                    (h_concat (host_fprop height n_emb in_width pr mlp emb) !
                       (n_ins n_emb * in_width * b + i * in_width + k) *
                     h_concat (host_fprop height n_emb in_width pr mlp emb) !
                       (n_ins n_emb * in_width * b + j * in_width + k))))
            [0..<in_width] 0)
       \<and> h_mat (host_fprop height n_emb in_width pr mlp emb) !
           (n_ins n_emb * n_ins n_emb * b + i * n_ins n_emb + j) =
         h_mat (host_fprop height n_emb in_width pr mlp emb) !
           (n_ins n_emb * n_ins n_emb * b + j * n_ins n_emb + i)"
proof -
  let ?fwd = "host_fprop height n_emb in_width pr mlp emb"
  have a: "\<And>i j. n_ins n_emb * n_ins n_emb * b + i * n_ins n_emb + j
             = ix3 (n_ins n_emb) (n_ins n_emb) b i j"
    and c: "\<And>r k. n_ins n_emb * in_width * b + r * in_width + k = ix3 (n_ins n_emb) in_width b r k"
    by (simp_all add: ix3_def algebra_simps)
  have sym: "get_accum pr x y = get_accum pr y x" for x y
    using assms(1) [of x y] assms(2) [of "to_float pr x" "to_float pr y"]
    by (simp add: get_accum_def)
  have "h_mat ?fwd ! ix3 (n_ins n_emb) (n_ins n_emb) b i j
      = h_mat ?fwd ! ix3 (n_ins n_emb) (n_ins n_emb) b j i"
    using assms(3-5) by (simp add: gram_entry sym [of "_ ! ix3 (n_ins n_emb) in_width b i _"])
  moreover have "length (h_mat ?fwd) = height * n_ins n_emb * n_ins n_emb"
    by (simp add: host_fprop_fields(4))
  moreover have "h_mat ?fwd ! ix3 (n_ins n_emb) (n_ins n_emb) b i j =
         of_float pr (fold (\<lambda>k accum. accum +
            (if is_half pr
             then to_float pr (h_concat ?fwd ! ix3 (n_ins n_emb) in_width b i k) *
                  to_float pr (h_concat ?fwd ! ix3 (n_ins n_emb) in_width b j k)
             else to_float pr (h_concat ?fwd ! ix3 (n_ins n_emb) in_width b i k *
                               h_concat ?fwd ! ix3 (n_ins n_emb) in_width b j k)))
            [0..<in_width] 0)"
    using assms(3-5) by (simp add: gram_entry get_accum_def)
  ultimately show ?thesis unfolding a c by simp
qed

theorem gram_symmetric_witness:
  "length (h_mat (host_fprop 2 1 2 exact [1, 2, 3, 4] [5, 6, 7, 8 :: int])) =
           2 * n_ins 1 * n_ins 1
   \<and> h_mat (host_fprop 2 1 2 exact [1, 2, 3, 4] [5, 6, 7, 8 :: int]) !
           (n_ins 1 * n_ins 1 * 1 + 0 * n_ins 1 + 1) =
         of_float exact (fold (\<lambda>k accum. accum +
            (if is_half (exact :: (int, int) precision)
             then to_float exact (h_concat (host_fprop 2 1 2 exact [1, 2, 3, 4] [5, 6, 7, 8]) !
                                 (n_ins 1 * 2 * 1 + 0 * 2 + k)) *
                  to_float exact (h_concat (host_fprop 2 1 2 exact [1, 2, 3, 4] [5, 6, 7, 8]) !
                                 (n_ins 1 * 2 * 1 + 1 * 2 + k))
             else to_float exact
                    (h_concat (host_fprop 2 1 2 exact [1, 2, 3, 4] [5, 6, 7, 8]) !
                       (n_ins 1 * 2 * 1 + 0 * 2 + k) *
                     h_concat (host_fprop 2 1 2 exact [1, 2, 3, 4] [5, 6, 7, 8]) !
                       (n_ins 1 * 2 * 1 + 1 * 2 + k))))
            [0..<2] 0)
   \<and> h_mat (host_fprop 2 1 2 exact [1, 2, 3, 4] [5, 6, 7, 8 :: int]) !
           (n_ins 1 * n_ins 1 * 1 + 0 * n_ins 1 + 1) =
     h_mat (host_fprop 2 1 2 exact [1, 2, 3, 4] [5, 6, 7, 8]) !
           (n_ins 1 * n_ins 1 * 1 + 1 * n_ins 1 + 0)"
  by (rule gram_symmetric) (simp_all add: n_ins_def)

text \<open>
  Claim C9. Whenever the dimensions of the inputs disagree with each other or with the shape
  configured at construction (in particular when \<open>in_width\<close> or \<open>height\<close> differ between the
  dense and the embedding input), the forward call fails with \<open>ShapeMismatch\<close>: its result
  is that error and no output array. Settled on the shape check modelled from the specification.
\<close>

theorem shape_mismatch_fails:
  assumes "dense_height d \<noteq> emb_height e \<or> dense_width d \<noteq> emb_width e \<or>
           dense_height d \<noteq> cfg_height cfg \<or> dense_width d \<noteq> cfg_in_width cfg \<or>
           emb_n_emb e \<noteq> cfg_n_emb cfg"
  shows "operator_forward cfg pr d e = Inl ShapeMismatch"
  using assms by (auto simp: operator_forward_def shapes_agree_def)

theorem shape_mismatch_fails_witness:
  "operator_forward \<lparr>cfg_height = 2, cfg_n_emb = 1, cfg_in_width = 2\<rparr>
       (exact :: (int, int) precision)
       \<lparr>dense_height = 2, dense_width = 2, dense_data = [1, 2, 3, 4]\<rparr>
       \<lparr>emb_height = 2, emb_n_emb = 1, emb_width = 3, emb_data = [5, 6, 7, 8, 9, 10]\<rparr>
     = Inl ShapeMismatch"
  by (rule shape_mismatch_fails) simp

text \<open>
  Claim C10. The diagonal and the lower triangle of the Gram matrix never reach the output:
  a forward pass that stores only the entries with \<open>n > m\<close> of every Gram matrix, into an array
  whose other cells hold arbitrary values, yields the same output array as the forward pass
  that computes the whole matrix.
\<close>

theorem lower_triangle_dead:
  assumes "length junk = height * n_ins n_emb * n_ins n_emb"
  shows "h_ref (host_fprop_upper height n_emb in_width pr mlp emb junk) =
         h_ref (host_fprop height n_emb in_width pr mlp emb)"
proof -
  let ?cat = "snd (snd (concat_op height n_emb in_width True
       (mlp, emb, replicate (height * out_width n_emb in_width) 0)))"
  have "h_ref (host_fprop_upper height n_emb in_width pr mlp emb junk) =
        assemble height n_emb in_width mlp (matmul_upper height n_emb in_width pr ?cat junk)"
    by (simp add: host_fprop_upper_def concat_op_fprop Let_def)
  also have "\<dots> = assemble height n_emb in_width mlp
        (matmul height n_emb in_width pr ?cat (replicate (height * n_ins n_emb * n_ins n_emb) 0))"
    unfolding assemble_eq
    by (rule arg_cong [where f = concat], rule map_cong)
       (simp_all add: triangle_matmul_upper assms)
  also have "\<dots> = h_ref (host_fprop height n_emb in_width pr mlp emb)"
    by (simp add: host_fprop_fields)
  finally show ?thesis .
qed

theorem lower_triangle_dead_witness:
  "h_ref (host_fprop_upper 2 1 2 exact [1, 2, 3, 4] [5, 6, 7, 8 :: int] [9, 9, 9, 9, 9, 9, 9, 9]) =
   h_ref (host_fprop 2 1 2 exact [1, 2, 3, 4] [5, 6, 7, 8])"
  by (rule lower_triangle_dead) (simp add: n_ins_def)

end
